theory Spec2Isabelle
  imports Complex_Main "HOL-Library.Log_Nat"
begin

section \<open>JavaScript numbers used by the controllers\<close>

text \<open>
  The controllers of \<open>docs/kafka/best-practices.md\<close> compute with JavaScript numbers,
  which are IEEE 754 doubles: every quotient and every product is the exact result
  rounded to the nearest double, ties going to the even significand. A finite double is
  given by the rational it denotes (the sign of zero is not kept: no comparison
  distinguishes the two zeros); \<open>Infinity\<close>, \<open>-Infinity\<close> and \<open>NaN\<close> are constructors of
  their own.

  \<open>binade x\<close>, for a positive \<open>x\<close>, is the exponent \<open>e\<close> with \<open>2^e \<le> x < 2^(e+1)\<close>, found from
  the bit lengths of the numerator and the denominator. Doubles have 53 significant bits
  and a least exponent of \<open>-1022\<close>, so that around \<open>x\<close> they are the multiples of
  \<open>2^(max e (-1022) - 52)\<close>; \<open>nearest x\<close> is the closest of them. A result that rounds to
  \<open>2^1024\<close> or more in magnitude is infinite.
\<close>

datatype number = Finite rat | PosInfinity | NegInfinity | NaN

definition binade :: "rat \<Rightarrow> int" where
  "binade x =
     (case quotient_of x of (p, q) \<Rightarrow>
        let k = bitlen p - bitlen q in if 2 powi k \<le> x then k else k - 1)"

definition roundTiesToEven :: "rat \<Rightarrow> int" where
  "roundTiesToEven x =
     (let f = \<lfloor>x\<rfloor>; d = x - of_int f
      in if d < 1 / 2 then f else if 1 / 2 < d then f + 1 else if even f then f else f + 1)"

definition nearest :: "rat \<Rightarrow> rat" where
  "nearest x =
     (if x = 0 then 0
      else let a = \<bar>x\<bar>; e = max (binade a) (- 1022); ulp = 2 powi (e - 52);
               r = of_int (roundTiesToEven (a / ulp)) * ulp
           in if 0 < x then r else - r)"

definition double :: "rat \<Rightarrow> number" where
  "double x =
     (let r = nearest x
      in if r \<noteq> 0 \<and> 1024 \<le> binade \<bar>r\<bar> then (if 0 < r then PosInfinity else NegInfinity)
         else Finite r)"

text \<open>
  The quotient of two integers, each of which a double holds exactly (the counters and
  the configured limit of the controllers are integers far below \<open>2^53\<close>), with the
  results of a division by zero; the product of a number and a finite double;
  and the comparisons \<^verbatim>\<open><=\<close> and \<^verbatim>\<open>>=\<close>, which are false when either side is \<open>NaN\<close>.
\<close>

definition divide_number :: "int \<Rightarrow> int \<Rightarrow> number" where
  "divide_number a b =
     (if b \<noteq> 0 then double (of_int a / of_int b)
      else if 0 < a then PosInfinity
      else if a < 0 then NegInfinity
      else NaN)"

fun times_number :: "number \<Rightarrow> rat \<Rightarrow> number" where
  "times_number (Finite q) k = double (q * k)"
| "times_number PosInfinity k = (if 0 < k then PosInfinity else if k < 0 then NegInfinity else NaN)"
| "times_number NegInfinity k = (if 0 < k then NegInfinity else if k < 0 then PosInfinity else NaN)"
| "times_number NaN k = NaN"

fun number_le :: "number \<Rightarrow> number \<Rightarrow> bool" where
  "number_le (Finite a) (Finite b) = (a \<le> b)"
| "number_le NaN y = False"
| "number_le x NaN = False"
| "number_le NegInfinity y = True"
| "number_le x PosInfinity = True"
| "number_le PosInfinity y = False"
| "number_le x NegInfinity = False"

definition number_ge :: "number \<Rightarrow> number \<Rightarrow> bool" where
  "number_ge x y = number_le y x"

section \<open>Retry policies of the documented consumers\<close>

text \<open>
  The \<^verbatim>\<open>dlq\<close> options of \<^verbatim>\<open>OrderConsumer\<close> (\<open>docs/kafka/best-practices.md\<close>) and
  \<^verbatim>\<open>AdvancedDlqConsumer\<close> (\<open>docs/kafka/advanced-features.md\<close>). A JavaScript error
  is read through \<^verbatim>\<open>error.name\<close> and \<^verbatim>\<open>error.code\<close>; the latter may be undefined.
  \<open>attempt\<close> is a count.
\<close>

record Error =
  name :: string
  code :: "string option"

definition retryDelay :: "nat \<Rightarrow> int" where
  "retryDelay attempt = min (1000 * 2 ^ attempt) 30000"

definition ordersShouldRetry :: "Error \<Rightarrow> 'm \<Rightarrow> nat \<Rightarrow> bool" where
  "ordersShouldRetry error message attempt =
     (if name error = ''ValidationError'' then False
      else if name error = ''BusinessLogicError'' \<and> 3 \<le> attempt then False
      else name error = ''TransientError'')"

definition paymentsShouldRetry :: "Error \<Rightarrow> 'm \<Rightarrow> nat \<Rightarrow> bool" where
  "paymentsShouldRetry error message attempt =
     (if code error = Some ''TEMPORARY_ERROR'' then True
      else if code error = Some ''VALIDATION_ERROR'' then False
      else attempt < 3)"

section \<open>Failure Router\<close>

text \<open>
  Modelled from the spec: the retry and dead-letter routing of the client library is not
  in the repository, which documents only its \<^verbatim>\<open>dlq\<close> options. Section 4.5 of the
  specification: on a failure the error is classified by \<open>shouldRetry\<close>; if it is
  retryable and \<open>attempt < maxRetries\<close>, a retry is scheduled after \<open>backoff(attempt)\<close>,
  which is \<open>base \<times> 2^attempt\<close> capped at \<open>maxBackoff\<close>; otherwise the message goes to the
  dead-letter destination with the original message, the failure reason and the attempt
  counter, and is terminal. \<open>attempt\<close> counts the retries already made, from zero.
\<close>

record 'm FailureRouter =
  maxRetries :: nat
  retryBackoffBase :: int
  retryBackoffMax :: int
  shouldRetry :: "Error \<Rightarrow> 'm \<Rightarrow> nat \<Rightarrow> bool"

record 'm DeadLetter =
  originalMessage :: 'm
  failureReason :: Error
  attemptCount :: nat

text \<open>
  Modelled from the spec: \<open>backoff(attempt)\<close>, the delay before the retry that follows
  the failure of \<open>attempt\<close>; the library's computation of it is not in the repository.
\<close>

definition backoff :: "'m FailureRouter \<Rightarrow> nat \<Rightarrow> int" where
  "backoff cfg attempt = min (retryBackoffBase cfg * 2 ^ attempt) (retryBackoffMax cfg)"

datatype 'm routing = ScheduleRetry int | EmitDeadLetter "'m DeadLetter"

text \<open>
  Modelled from the spec: what the router does with one failure; the library's routing is
  not in the repository.
\<close>

definition route :: "'m FailureRouter \<Rightarrow> 'm \<Rightarrow> Error \<Rightarrow> nat \<Rightarrow> 'm routing" where
  "route cfg msg err attempt =
     (if shouldRetry cfg err msg attempt \<and> attempt < maxRetries cfg
      then ScheduleRetry (backoff cfg attempt)
      else EmitDeadLetter \<lparr>originalMessage = msg, failureReason = err, attemptCount = attempt\<rparr>)"

text \<open>
  Modelled from the spec: the life of one message in the router, as the sequence of what
  happens to it. \<open>handler attempt\<close> is what the user handler does at that attempt:
  \<open>None\<close> when it succeeds, the error it raises otherwise.
\<close>

datatype 'm router_event =
  HandlerInvoked nat
  | RetryScheduled nat int
  | DeadLettered "'m DeadLetter"
  | Succeeded

function processMessage ::
  "'m FailureRouter \<Rightarrow> (nat \<Rightarrow> Error option) \<Rightarrow> 'm \<Rightarrow> nat \<Rightarrow> 'm router_event list" where
  "processMessage cfg handler msg attempt =
     (case handler attempt of
        None \<Rightarrow> [HandlerInvoked attempt, Succeeded]
      | Some err \<Rightarrow>
          (case route cfg msg err attempt of
             ScheduleRetry delay \<Rightarrow>
               HandlerInvoked attempt # RetryScheduled attempt delay
                 # processMessage cfg handler msg (Suc attempt)
           | EmitDeadLetter d \<Rightarrow> [HandlerInvoked attempt, DeadLettered d]))"
  by pat_completeness auto
termination
  by (relation "measure (\<lambda>(cfg, handler, msg, attempt). maxRetries cfg - attempt)")
    (auto simp: route_def split: if_splits)

section \<open>Idempotency Filter\<close>

text \<open>
  Modelled from the spec: the deduplication of the client library is not in the
  repository, which documents only the options \<^verbatim>\<open>idempotencyKey\<close> and
  \<^verbatim>\<open>idempotencyTtl\<close>. Section 4.1 of the specification: \<open>shouldProcess\<close> looks the
  extracted key up in a map of entries \<open>{key, expiresAt}\<close>; if the key is present and
  unexpired it returns false; if it is absent or expired it inserts \<open>{key, now + ttl}\<close>
  and returns true. An entry is expired from the instant \<open>expiresAt\<close> on. The sweep
  removes the expired entries. The capacity bound of the map is not modelled.
\<close>

type_synonym 'k entries = "'k \<rightharpoonup> int"

text \<open>
  Modelled from the spec: \<open>shouldProcess\<close> of the library's filter, which is not in the
  repository, on the extracted key \<open>k\<close> at the time \<open>now\<close>.
\<close>

definition shouldProcess :: "int \<Rightarrow> int \<Rightarrow> 'k \<Rightarrow> 'k entries \<Rightarrow> bool \<times> 'k entries" where
  "shouldProcess ttl now k es =
     (case es k of
        Some expiresAt \<Rightarrow>
          if now < expiresAt then (False, es) else (True, es(k \<mapsto> now + ttl))
      | None \<Rightarrow> (True, es(k \<mapsto> now + ttl)))"

text \<open>
  Modelled from the spec: the background sweep of the library's filter, which is not in
  the repository.
\<close>

definition sweep :: "int \<Rightarrow> 'k entries \<Rightarrow> 'k entries" where
  "sweep now es =
     (\<lambda>k. case es k of
             Some expiresAt \<Rightarrow> if expiresAt \<le> now then None else Some expiresAt
           | None \<Rightarrow> None)"

text \<open>
  Modelled from the spec: the filter in front of the user handler. A delivered message
  is handed to the handler when \<open>shouldProcess\<close> says so, and acknowledged without the
  handler otherwise. \<open>handled\<close> and \<open>skipped\<close> list the messages of either kind, in order.
\<close>

datatype 'm intake_event = Deliver int 'm | Sweep int

record ('k, 'm) IdempotencyFilter =
  ttl :: int
  idempotencyKey :: "'m \<Rightarrow> 'k"
  entries :: "'k entries"
  handled :: "'m list"
  skipped :: "'m list"

fun intake :: "'m intake_event \<Rightarrow> ('k, 'm) IdempotencyFilter \<Rightarrow> ('k, 'm) IdempotencyFilter" where
  "intake (Deliver now msg) f =
     (case shouldProcess (ttl f) now (idempotencyKey f msg) (entries f) of
        (True, es) \<Rightarrow> f\<lparr>entries := es, handled := handled f @ [msg]\<rparr>
      | (False, es) \<Rightarrow> f\<lparr>entries := es, skipped := skipped f @ [msg]\<rparr>)"
| "intake (Sweep now) f = f\<lparr>entries := sweep now (entries f)\<rparr>"

fun intakes :: "'m intake_event list \<Rightarrow> ('k, 'm) IdempotencyFilter \<Rightarrow> ('k, 'm) IdempotencyFilter" where
  "intakes [] f = f"
| "intakes (e # es) f = intakes es (intake e f)"

fun event_time :: "'m intake_event \<Rightarrow> int" where
  "event_time (Deliver now msg) = now"
| "event_time (Sweep now) = now"

section \<open>Batch handler with key grouping\<close>





fun push_group :: "'k \<Rightarrow> 'o \<Rightarrow> ('k \<times> 'o list) list \<Rightarrow> ('k \<times> 'o list) list" where
  "push_group k v [] = [(k, [v])]"
| "push_group k v ((k', vs) # g) =
     (if k' = k then (k', vs @ [v]) # g else (k', vs) # push_group k v g)"







text \<open>
  \<^verbatim>\<open>processCustomerOrders\<close> awaits \<^verbatim>\<open>processOrder\<close> for one order after the other;
  \<^verbatim>\<open>processOrder\<close> is the application's and is not documented: when and how each of
  its promises settles is an input. A task is one call of \<^verbatim>\<open>processCustomerOrders\<close>:
  it has an order in flight and the orders still to come, or it has returned, or it has
  thrown. The trace records when \<^verbatim>\<open>processOrder\<close> is called and when its promise
  resolves or rejects.
\<close>

datatype 'o task = InFlight 'o "'o list" | Fulfilled | Rejected

datatype 'o process_event = Begin string 'o | EndOk string 'o | EndFail string 'o


text \<open>The synchronous part of a call: up to the first \<^verbatim>\<open>await\<close>.\<close>

fun processCustomerOrders :: "string \<Rightarrow> 'o list \<Rightarrow> 'o task \<times> 'o process_event list" where
  "processCustomerOrders k [] = (Fulfilled, [])"
| "processCustomerOrders k (order # orders) = (InFlight order orders, [Begin k order])"







text \<open>
  The options of the \<^verbatim>\<open>@Consumer\<close> decorator that concern batches, and those of
  \<^verbatim>\<open>OrderConsumer\<close> in Test 1 of \<open>docs/kafka/best-practices.md\<close>, the consumer that is
  documented both with a \<^verbatim>\<open>handleBatch\<close> over key groups and with \<^verbatim>\<open>maxConcurrency\<close>.
\<close>

record ConsumerOptions =
  batch :: bool
  batchSize :: nat
  batchTimeout :: int
  groupByKey :: bool
  maxConcurrency :: nat
  backPressureThreshold :: nat





fun event_key :: "'o process_event \<Rightarrow> string" where
  "event_key (Begin k order) = k"
| "event_key (EndOk k order) = k"
| "event_key (EndFail k order) = k"




section \<open>Key-Grouped Batch Aggregator\<close>

text \<open>
  Modelled from the spec: the batching of the client library is not in the repository,
  which documents only the options \<^verbatim>\<open>batchSize\<close>, \<^verbatim>\<open>batchTimeout\<close> and
  \<^verbatim>\<open>groupByKey\<close>. Sections 3 and 4.2 of the specification: one batch is open; an
  offered message is appended to the key group of its grouping key and counted; the
  batch closes when the count equals \<open>batchSize\<close>, or when its timer fires
  \<open>batchTimeout\<close> after it opened while it holds a message; a closed batch is pushed
  downstream and a new empty batch opens in the same transition. A timer that finds the
  open batch empty pushes nothing and starts a new window.
\<close>

record ('k, 'm) Batch =
  groups :: "('k \<times> 'm list) list"
  openedAt :: int
  messageCount :: nat

record ('k, 'm) Aggregator =
  batchSize :: nat
  batchTimeout :: int
  groupingKey :: "'m \<Rightarrow> 'k"
  openBatch :: "('k, 'm) Batch"
  downstream :: "('k, 'm) Batch list"

definition emptyBatch :: "int \<Rightarrow> ('k, 'm) Batch" where
  "emptyBatch now = \<lparr>groups = [], openedAt = now, messageCount = 0\<rparr>"

definition newAggregator :: "nat \<Rightarrow> int \<Rightarrow> ('m \<Rightarrow> 'k) \<Rightarrow> int \<Rightarrow> ('k, 'm) Aggregator" where
  "newAggregator n timeout keyOf now =
     \<lparr>batchSize = n, batchTimeout = timeout, groupingKey = keyOf,
      openBatch = emptyBatch now, downstream = []\<rparr>"

text \<open>
  Modelled from the spec: the close of the open batch, the offer of a message and the
  firing of the timer in the library's aggregator, which is not in the repository.
\<close>

definition closeBatch :: "int \<Rightarrow> ('k, 'm) Aggregator \<Rightarrow> ('k, 'm) Aggregator" where
  "closeBatch now a = a\<lparr>downstream := downstream a @ [openBatch a], openBatch := emptyBatch now\<rparr>"

definition offer :: "int \<Rightarrow> 'm \<Rightarrow> ('k, 'm) Aggregator \<Rightarrow> ('k, 'm) Aggregator" where
  "offer now msg a =
     (let b = openBatch a;
          b1 = b\<lparr>groups := push_group (groupingKey a msg) msg (groups b),
                 messageCount := messageCount b + 1\<rparr>;
          a1 = a\<lparr>openBatch := b1\<rparr>
      in if messageCount b1 = batchSize a then closeBatch now a1 else a1)"

definition timerFired :: "int \<Rightarrow> ('k, 'm) Aggregator \<Rightarrow> ('k, 'm) Aggregator" where
  "timerFired now a =
     (if batchTimeout a \<le> now - openedAt (openBatch a)
      then if 0 < messageCount (openBatch a) then closeBatch now a
           else a\<lparr>openBatch := emptyBatch now\<rparr>
      else a)"

datatype 'm aggregator_event = Offer int 'm | TimerFired int

fun aggregate :: "('k, 'm) Aggregator \<Rightarrow> 'm aggregator_event \<Rightarrow> ('k, 'm) Aggregator" where
  "aggregate a (Offer now msg) = offer now msg a"
| "aggregate a (TimerFired now) = timerFired now a"

fun offered :: "'m aggregator_event list \<Rightarrow> 'm list" where
  "offered [] = []"
| "offered (Offer now msg # es) = msg # offered es"
| "offered (TimerFired now # es) = offered es"

text \<open>
  The messages of key \<open>k\<close> that the aggregator holds: those of the batches pushed
  downstream, oldest batch first, followed by those of the open batch.
\<close>

definition batchOrders :: "('k, 'm) Batch \<Rightarrow> 'k \<Rightarrow> 'm list" where
  "batchOrders b k = (case map_of (groups b) k of None \<Rightarrow> [] | Some ms \<Rightarrow> ms)"

definition held :: "('k, 'm) Aggregator \<Rightarrow> 'k \<Rightarrow> 'm list" where
  "held a k = concat (map (\<lambda>b. batchOrders b k) (downstream a)) @ batchOrders (openBatch a) k"

section \<open>AdaptiveBackpressureController\<close>

text \<open>
  \<^verbatim>\<open>class AdaptiveBackpressureController\<close> of \<open>docs/kafka/best-practices.md\<close>.
  \<open>targetLatency\<close> is \<^verbatim>\<open>config.targetLatency\<close>, which may be undefined. The method
  \<^verbatim>\<open>calculateAverage\<close> is not part of the documented class; it is a parameter of
  \<open>adaptiveAfterBatchProcessing\<close>, applied to the history.
\<close>

record AdaptiveBackpressureController =
  processingTimeHistory :: "rat list"
  windowSize :: nat
  targetLatency :: "rat option"
  currentConcurrency :: int
  maxConcurrency :: int
  threshold :: rat

datatype direction = Increase | Decrease

definition adjustConcurrency ::
  "direction \<Rightarrow> AdaptiveBackpressureController \<Rightarrow> AdaptiveBackpressureController" where
  "adjustConcurrency d c =
     (if d = Decrease
      then c\<lparr>currentConcurrency := max 1 (currentConcurrency c - 1),
             threshold := max 50 (threshold c - 10)\<rparr>
      else c\<lparr>currentConcurrency := min (maxConcurrency c) (currentConcurrency c + 1),
             threshold := min 90 (threshold c + 5)\<rparr>)"

definition adaptiveAfterBatchProcessing ::
  "(rat list \<Rightarrow> rat) \<Rightarrow> rat \<Rightarrow> AdaptiveBackpressureController \<Rightarrow> AdaptiveBackpressureController" where
  "adaptiveAfterBatchProcessing calculateAverage duration c =
     (let h1 = processingTimeHistory c @ [duration];
          h2 = (if windowSize c < length h1 then tl h1 else h1);
          c1 = c\<lparr>processingTimeHistory := h2\<rparr>;
          avgProcessingTime = calculateAverage h2;
          targetProcessingTime =
            (case targetLatency c1 of None \<Rightarrow> 1000 | Some v \<Rightarrow> if v = 0 then 1000 else v)
      in if targetProcessingTime * (15 / 10) < avgProcessingTime then adjustConcurrency Decrease c1
         else if avgProcessingTime < targetProcessingTime * (5 / 10) then adjustConcurrency Increase c1
         else c1)"

text \<open>A sequence of adjustments, and a sequence of completed batches with their durations.\<close>

fun adjustments :: "direction list \<Rightarrow> AdaptiveBackpressureController \<Rightarrow> AdaptiveBackpressureController" where
  "adjustments [] c = c"
| "adjustments (d # ds) c = adjustments ds (adjustConcurrency d c)"

fun completions ::
  "(rat list \<Rightarrow> rat) \<Rightarrow> rat list \<Rightarrow> AdaptiveBackpressureController \<Rightarrow> AdaptiveBackpressureController" where
  "completions avg [] c = c"
| "completions avg (d # ds) c = completions avg ds (adaptiveAfterBatchProcessing avg d c)"

section \<open>CircuitBreakerProducer\<close>

text \<open>
  \<^verbatim>\<open>class CircuitBreakerProducer\<close> of \<open>docs/kafka/best-practices.md\<close>. \<^verbatim>\<open>send\<close> is an
  \<^verbatim>\<open>async\<close> method with one \<^verbatim>\<open>await\<close>, on the promise of \<^verbatim>\<open>producer.send\<close>: a call
  runs up to there, and its remainder runs when that promise settles; other calls may
  start in between. The effects are the network call \<^verbatim>\<open>producer.send\<close> and the metrics
  call.
\<close>

datatype circuit = CLOSED | OPEN | HALF_OPEN

record CircuitBreakerProducer =
  failureCount :: int
  failureThreshold :: int
  circuitState :: circuit
  lastFailureTime :: int
  resetTimeout :: int

definition newCircuitBreakerProducer :: CircuitBreakerProducer where
  "newCircuitBreakerProducer =
     \<lparr>failureCount = 0, failureThreshold = 5, circuitState = CLOSED,
      lastFailureTime = 0, resetTimeout = 60000\<rparr>"

datatype send_effect = ProducerSend | MetricsRecordCircuitOpen

datatype send_result = Returned | ThrewCircuitOpen | ThrewSendError

text \<open>
  The \<^verbatim>\<open>catch\<close> block, up to its \<^verbatim>\<open>throw\<close>; \<open>caught\<close> is the value of \<^verbatim>\<open>Date.now()\<close>
  there.
\<close>

definition catchBlock ::
  "int \<Rightarrow> CircuitBreakerProducer \<Rightarrow> send_effect list \<times> CircuitBreakerProducer" where
  "catchBlock caught cb =
     (let cb1 = cb\<lparr>failureCount := failureCount cb + 1, lastFailureTime := caught\<rparr>
      in if failureThreshold cb1 \<le> failureCount cb1
         then ([MetricsRecordCircuitOpen], cb1\<lparr>circuitState := OPEN\<rparr>)
         else ([], cb1))"

text \<open>
  \<^verbatim>\<open>send\<close> up to its \<^verbatim>\<open>await\<close>. \<open>now\<close> is the value of \<^verbatim>\<open>Date.now()\<close> at the
  circuit check. \<open>serialisable\<close> tells whether \<^verbatim>\<open>JSON.stringify(message)\<close> returns; when
  it throws, \<^verbatim>\<open>producer.send\<close> is not called and the \<^verbatim>\<open>catch\<close> block runs at once,
  reading the clock as \<open>caught\<close>. The result is the effects issued, how the call ended
  (\<open>None\<close> when it has called \<^verbatim>\<open>producer.send\<close> and is suspended at the \<^verbatim>\<open>await\<close>),
  and the updated object.
\<close>

definition send ::
  "int \<Rightarrow> bool \<Rightarrow> int \<Rightarrow> CircuitBreakerProducer
     \<Rightarrow> send_effect list \<times> send_result option \<times> CircuitBreakerProducer" where
  "send now serialisable caught cb =
     (if circuitState cb = OPEN \<and> now - lastFailureTime cb < resetTimeout cb
      then ([], Some ThrewCircuitOpen, cb)
      else
        let cb1 = (if circuitState cb = OPEN then cb\<lparr>circuitState := HALF_OPEN\<rparr> else cb)
        in if serialisable then ([ProducerSend], None, cb1)
           else (case catchBlock caught cb1 of (es, cb2) \<Rightarrow> (es, Some ThrewSendError, cb2)))"

text \<open>
  The remainder of a suspended call, run when the promise of \<^verbatim>\<open>producer.send\<close> is
  fulfilled (the rest of the \<^verbatim>\<open>try\<close> block) or rejected (the \<^verbatim>\<open>catch\<close> block, which
  reads the clock as \<open>caught\<close>), on the object as it is at that moment.
\<close>

definition sendSettled ::
  "bool \<Rightarrow> int \<Rightarrow> CircuitBreakerProducer
     \<Rightarrow> send_effect list \<times> send_result \<times> CircuitBreakerProducer" where
  "sendSettled fulfilled caught cb =
     (if fulfilled
      then ([], Returned,
            (if circuitState cb = HALF_OPEN then cb\<lparr>circuitState := CLOSED\<rparr> else cb)
              \<lparr>failureCount := 0\<rparr>)
      else (case catchBlock caught cb of (es, cb1) \<Rightarrow> (es, ThrewSendError, cb1)))"

text \<open>
  The producer with its calls: the object, the number of calls suspended at their
  \<^verbatim>\<open>await\<close>, and how the calls that have ended did end, in that order. A step is the
  start of a call, or the settling of the promise that one suspended call awaits (the
  remainders of the suspended calls are all alike, so it does not matter which). A
  settling with no call suspended changes nothing.
\<close>

datatype producer_step = StartSend int bool int | SettleSend bool int

record ProducerRun =
  producer :: CircuitBreakerProducer
  inFlight :: nat
  results :: "send_result list"

fun sendStep :: "producer_step \<Rightarrow> ProducerRun \<Rightarrow> send_effect list \<times> ProducerRun" where
  "sendStep (StartSend now serialisable caught) s =
     (case send now serialisable caught (producer s) of
        (es, None, cb) \<Rightarrow> (es, s\<lparr>producer := cb, inFlight := Suc (inFlight s)\<rparr>)
      | (es, Some res, cb) \<Rightarrow> (es, s\<lparr>producer := cb, results := results s @ [res]\<rparr>))"
| "sendStep (SettleSend fulfilled caught) s =
     (if 0 < inFlight s
      then (case sendSettled fulfilled caught (producer s) of
              (es, res, cb) \<Rightarrow>
                (es, s\<lparr>producer := cb, inFlight := inFlight s - 1, results := results s @ [res]\<rparr>))
      else ([], s))"

fun sendSteps :: "producer_step list \<Rightarrow> ProducerRun \<Rightarrow> send_effect list \<times> ProducerRun" where
  "sendSteps [] s = ([], s)"
| "sendSteps (y # ys) s =
     (case sendStep y s of (es, s1) \<Rightarrow>
        (case sendSteps ys s1 of (es', s2) \<Rightarrow> (es @ es', s2)))"

definition startProducer :: "CircuitBreakerProducer \<Rightarrow> ProducerRun" where
  "startProducer cb = \<lparr>producer = cb, inFlight = 0, results = []\<rparr>"

text \<open>
  Calls that do not overlap: each is given by the clock at its check, what happens in
  its \<^verbatim>\<open>try\<close> block and the clock in its \<^verbatim>\<open>catch\<close> block, and has ended before the
  next one starts.
\<close>

datatype attempt = Resolves | Rejects | StringifyThrows

fun oneSend :: "int \<times> attempt \<times> int \<Rightarrow> producer_step list" where
  "oneSend (now, Resolves, caught) = [StartSend now True caught, SettleSend True caught]"
| "oneSend (now, Rejects, caught) = [StartSend now True caught, SettleSend False caught]"
| "oneSend (now, StringifyThrows, caught) = [StartSend now False caught]"

definition sequentialSends :: "(int \<times> attempt \<times> int) list \<Rightarrow> producer_step list" where
  "sequentialSends xs = concat (map oneSend xs)"

text \<open>
  The consecutive send failures at the end of a history of results: the failed sends
  since the last send that returned. A call refused by the open circuit is not a send.
\<close>

definition consecutiveFailures :: "send_result list \<Rightarrow> nat" where
  "consecutiveFailures rs =
     length (takeWhile (\<lambda>r. r = ThrewSendError) (rev (filter (\<lambda>r. r \<noteq> ThrewCircuitOpen) rs)))"

section \<open>BackpressureController\<close>

text \<open>
  \<^verbatim>\<open>class BackpressureController\<close> of \<open>docs/kafka/best-practices.md\<close>. Both methods are
  \<^verbatim>\<open>async\<close> with one \<^verbatim>\<open>await\<close>, on the promise of \<^verbatim>\<open>consumer.pause\<close> or
  \<^verbatim>\<open>consumer.resume\<close>: a call runs up to there, and its remainder, which sets
  \<open>isPaused\<close>, runs when that promise is fulfilled; other calls may start in between.
  When the promise is rejected the call ends there, with \<open>isPaused\<close> as it was. The
  effects are the calls \<^verbatim>\<open>consumer.pause\<close>, \<^verbatim>\<open>consumer.resume\<close>,
  \<^verbatim>\<open>metrics.recordPause\<close> and \<^verbatim>\<open>metrics.recordResume\<close>. The literal \<^verbatim>\<open>0.6\<close> is the
  double nearest to 6/10.
\<close>

record BackpressureController =
  activeBatches :: int
  maxConcurrency :: int
  threshold :: rat
  isPaused :: bool

datatype effect = ConsumerPause | ConsumerResume | MetricsRecordPause | MetricsRecordResume

datatype suspended = AwaitingPause | AwaitingResume

definition utilizationPercent :: "BackpressureController \<Rightarrow> number" where
  "utilizationPercent c = times_number (divide_number (activeBatches c) (maxConcurrency c)) 100"

text \<open>
  Each method up to its \<^verbatim>\<open>await\<close>: the effects issued, the updated object, and the
  point where the call is suspended (\<open>None\<close> when it has returned).
\<close>

definition beforeBatchProcessing ::
  "BackpressureController \<Rightarrow> effect list \<times> BackpressureController \<times> suspended option" where
  "beforeBatchProcessing c =
     (let c1 = c\<lparr>activeBatches := activeBatches c + 1\<rparr> in
      if number_ge (utilizationPercent c1) (Finite (threshold c1)) \<and> \<not> isPaused c1
      then ([ConsumerPause], c1, Some AwaitingPause)
      else ([], c1, None))"

definition afterBatchProcessing ::
  "BackpressureController \<Rightarrow> effect list \<times> BackpressureController \<times> suspended option" where
  "afterBatchProcessing c =
     (let c1 = c\<lparr>activeBatches := activeBatches c - 1\<rparr> in
      if number_le (utilizationPercent c1) (times_number (Finite (threshold c1)) (nearest (6 / 10)))
         \<and> isPaused c1
      then ([ConsumerResume], c1, Some AwaitingResume)
      else ([], c1, None))"

text \<open>
  The remainder of a suspended call, run on the object as it is when the awaited promise
  is fulfilled.
\<close>

fun afterAwait :: "suspended \<Rightarrow> BackpressureController \<Rightarrow> effect list \<times> BackpressureController" where
  "afterAwait AwaitingPause c = ([MetricsRecordPause], c\<lparr>isPaused := True\<rparr>)"
| "afterAwait AwaitingResume c = ([MetricsRecordResume], c\<lparr>isPaused := False\<rparr>)"

datatype call = BeforeBatchProcessing | AfterBatchProcessing

fun invoke ::
  "call \<Rightarrow> BackpressureController \<Rightarrow> effect list \<times> BackpressureController \<times> suspended option" where
  "invoke BeforeBatchProcessing c = beforeBatchProcessing c"
| "invoke AfterBatchProcessing c = afterBatchProcessing c"

text \<open>
  The controller with its calls: the object and the calls suspended at their \<^verbatim>\<open>await\<close>.
  A step is the start of a call, or the settling of the promise awaited by the
  suspended call at a given position, fulfilled or rejected; a settling that names no
  suspended call changes nothing. An interleaving is any sequence of steps.
\<close>

datatype controller_step = Call call | Settle nat bool

record ControllerRun =
  controller :: BackpressureController
  suspendedCalls :: "suspended list"

fun controllerStep :: "controller_step \<Rightarrow> ControllerRun \<Rightarrow> effect list \<times> ControllerRun" where
  "controllerStep (Call x) s =
     (case invoke x (controller s) of
        (es, c1, None) \<Rightarrow> (es, s\<lparr>controller := c1\<rparr>)
      | (es, c1, Some w) \<Rightarrow> (es, s\<lparr>controller := c1, suspendedCalls := suspendedCalls s @ [w]\<rparr>))"
| "controllerStep (Settle i fulfilled) s =
     (if i < length (suspendedCalls s)
      then let rest = take i (suspendedCalls s) @ drop (Suc i) (suspendedCalls s)
           in if fulfilled
              then (case afterAwait (suspendedCalls s ! i) (controller s) of
                      (es, c1) \<Rightarrow> (es, s\<lparr>controller := c1, suspendedCalls := rest\<rparr>))
              else ([], s\<lparr>suspendedCalls := rest\<rparr>)
      else ([], s))"

fun interleave :: "controller_step list \<Rightarrow> ControllerRun \<Rightarrow> effect list \<times> ControllerRun" where
  "interleave [] s = ([], s)"
| "interleave (y # ys) s =
     (case controllerStep y s of (es, s1) \<Rightarrow>
        (case interleave ys s1 of (es', s2) \<Rightarrow> (es @ es', s2)))"

text \<open>
  Calls that do not overlap and whose requests succeed: every call is followed by the
  fulfilment of the promise it awaits, if it awaits one, before the next call starts.
\<close>

definition serially :: "call list \<Rightarrow> controller_step list" where
  "serially xs = concat (map (\<lambda>x. [Call x, Settle 0 True]) xs)"

text \<open>The object after construction, with the two configured values, and no call made yet.\<close>

definition newBackpressureController :: "int \<Rightarrow> rat \<Rightarrow> BackpressureController" where
  "newBackpressureController m t =
     \<lparr>activeBatches = 0, maxConcurrency = m, threshold = t, isPaused = False\<rparr>"

definition startController :: "BackpressureController \<Rightarrow> ControllerRun" where
  "startController c = \<lparr>controller = c, suspendedCalls = []\<rparr>"

text \<open>
  \<open>alternates p es\<close>: in the effect sequence \<open>es\<close>, issued from a state whose pause flag
  is \<open>p\<close>, calls of \<^verbatim>\<open>consumer.pause\<close> and \<^verbatim>\<open>consumer.resume\<close> alternate, the first one
  being a pause exactly when \<open>p\<close> is false.
\<close>

fun alternates :: "bool \<Rightarrow> effect list \<Rightarrow> bool" where
  "alternates p [] = True"
| "alternates p (ConsumerPause # es) = (\<not> p \<and> alternates True es)"
| "alternates p (ConsumerResume # es) = (p \<and> alternates False es)"
| "alternates p (MetricsRecordPause # es) = alternates p es"
| "alternates p (MetricsRecordResume # es) = alternates p es"

section \<open>Invariants\<close>

text \<open>The notions used in the proofs below: what every reachable state satisfies.\<close>

text \<open>
  A call of the controller run to its end, its request fulfilled; the number of pause
  and resume requests in a sequence of effects; and: below the threshold, as the
  controller computes it, whenever intake is not paused.
\<close>

definition completeCall :: "call \<Rightarrow> BackpressureController \<Rightarrow> effect list \<times> BackpressureController" where
  "completeCall x c =
     (case invoke x c of
        (es, c1, None) \<Rightarrow> (es, c1)
      | (es, c1, Some w) \<Rightarrow> (case afterAwait w c1 of (es', c2) \<Rightarrow> (es @ es', c2)))"

definition toggles :: "effect list \<Rightarrow> nat" where
  "toggles es = length (filter (\<lambda>e. e = ConsumerPause \<or> e = ConsumerResume) es)"

definition below_unless_paused :: "BackpressureController \<Rightarrow> bool" where
  "below_unless_paused c =
     (isPaused c \<or> \<not> number_ge (utilizationPercent c) (Finite (threshold c)))"

text \<open>The concurrency limit lies between one and the configured maximum.\<close>

definition limit_in_range :: "AdaptiveBackpressureController \<Rightarrow> bool" where
  "limit_in_range c =
     (1 \<le> currentConcurrency c \<and>
      currentConcurrency c \<le> AdaptiveBackpressureController.maxConcurrency c)"

text \<open>
  What holds of the producer whatever the interleaving of its calls: the failure count
  is the number of consecutive failures, and is below the threshold while the circuit
  is closed. And what holds between calls that do not overlap: no call is suspended, and
  the circuit is closed or open, open with at least as many failures counted as the
  threshold.
\<close>

definition circuit_counted :: "ProducerRun \<Rightarrow> bool" where
  "circuit_counted s =
     (failureCount (producer s) = int (consecutiveFailures (results s)) \<and>
      (circuitState (producer s) = CLOSED \<longrightarrow> failureCount (producer s) < failureThreshold (producer s)) \<and>
      failureThreshold (producer s) = 5 \<and> resetTimeout (producer s) = 60000)"

definition circuit_consistent :: "ProducerRun \<Rightarrow> bool" where
  "circuit_consistent s =
     (inFlight s = 0 \<and>
      (case circuitState (producer s) of
         CLOSED \<Rightarrow> True
       | OPEN \<Rightarrow> failureThreshold (producer s) \<le> failureCount (producer s)
       | HALF_OPEN \<Rightarrow> False))"

text \<open>The orders stored for a key in an association list of groups.\<close>

definition groupOrders :: "('k \<times> 'o list) list \<Rightarrow> 'k \<Rightarrow> 'o list" where
  "groupOrders g k = (case map_of g k of None \<Rightarrow> [] | Some vs \<Rightarrow> vs)"




text \<open>The open batch counts the messages it holds and is not full.\<close>

definition batch_counted :: "('k, 'm) Batch \<Rightarrow> bool" where
  "batch_counted b = (messageCount b = length (concat (map snd (groups b))))"

definition aggregator_ok :: "('k, 'm) Aggregator \<Rightarrow> bool" where
  "aggregator_ok a =
     (batch_counted (openBatch a) \<and> messageCount (openBatch a) < batchSize a)"

section \<open>Properties of the rounding\<close>

lemma bitlen_bounds_rat:
  assumes "0 < p"
  shows "(2::rat) powi (bitlen p - 1) \<le> of_int p \<and> of_int p < (2::rat) powi (bitlen p)"
proof -
  from bitlen_bounds [OF assms] have bp: "2 ^ nat (bitlen p - 1) \<le> p" "p < 2 ^ nat (bitlen p)" by simp_all
  have p1: "1 \<le> bitlen p" using assms bitlen_eq_zero_iff [of p] bitlen_nonneg [of p] by linarith
  have "(of_int (2 ^ nat (bitlen p - 1)) :: rat) \<le> of_int p" using bp(1) by (simp only: of_int_le_iff)
  then have a: "(2::rat) powi (bitlen p - 1) \<le> of_int p" using p1 by (simp add: power_int_def)
  have "(of_int p :: rat) < of_int (2 ^ nat (bitlen p))" using bp(2) by (simp only: of_int_less_iff)
  then have b: "of_int p < (2::rat) powi (bitlen p)" using p1 by (simp add: power_int_def)
  from a b show ?thesis by simp
qed

lemma binade_bounds:
  assumes "0 < x"
  shows "2 powi (binade x) \<le> x \<and> x < 2 powi (binade x + 1)"
proof -
  obtain p q where pq: "quotient_of x = (p, q)" by (cases "quotient_of x")
  have q: "0 < q" using pq by (rule quotient_of_denom_pos)
  have x: "x = of_int p / of_int q" using pq by (rule quotient_of_div)
  have p: "0 < p" using assms q unfolding x by (simp add: zero_less_divide_iff)
  have xq: "x * of_int q = of_int p" using q unfolding x by simp
  have qr: "(0::rat) < of_int q" using q by simp
  from bitlen_bounds_rat [OF p]
  have rp: "(2::rat) powi (bitlen p - 1) \<le> of_int p" "of_int p < (2::rat) powi (bitlen p)" by simp_all
  from bitlen_bounds_rat [OF q]
  have rq: "(2::rat) powi (bitlen q - 1) \<le> of_int q" "of_int q < (2::rat) powi (bitlen q)" by simp_all
  define k where "k = bitlen p - bitlen q"
  have e1: "(2::rat) powi (bitlen p) = 2 powi (k + 1) * 2 powi (bitlen q - 1)"
    unfolding k_def by (subst power_int_add [symmetric]) simp_all
  have e2: "(2::rat) powi (k - 1) * 2 powi (bitlen q) = 2 powi (bitlen p - 1)"
    unfolding k_def by (subst power_int_add [symmetric]) simp_all
  have up: "x < 2 powi (k + 1)"
  proof -
    have "x * of_int q < 2 powi (bitlen p)" unfolding xq by (rule rp)
    also have "\<dots> \<le> 2 powi (k + 1) * of_int q"
      unfolding e1 using rq(1) by (intro mult_left_mono) simp_all
    finally show ?thesis using qr by (simp only: mult_less_cancel_right_pos)
  qed
  have lo: "2 powi (k - 1) \<le> x"
  proof -
    have "2 powi (k - 1) * of_int q \<le> 2 powi (k - 1) * (2::rat) powi (bitlen q)"
      using rq(2) by (intro mult_left_mono) simp_all
    also have "\<dots> \<le> x * of_int q" unfolding e2 xq by (rule rp)
    finally show ?thesis using qr by (simp only: mult_le_cancel_right_pos)
  qed
  show ?thesis
  proof (cases "2 powi k \<le> x")
    case True
    then have "binade x = k" by (simp add: binade_def pq k_def)
    with True up show ?thesis by simp
  next
    case False
    then have "binade x = k - 1" by (simp add: binade_def pq k_def)
    with False lo show ?thesis by simp
  qed
qed

lemma roundTiesToEven_bounds:
  "\<bar>of_int (roundTiesToEven x) - x\<bar> \<le> 1 / 2"
proof -
  define f where "f = \<lfloor>x\<rfloor>"
  have d: "of_int f \<le> x" "x < of_int f + 1" unfolding f_def by linarith+
  have r: "roundTiesToEven x =
      (if x - of_int f < 1 / 2 then f
       else if 1 / 2 < x - of_int f then f + 1 else if even f then f else f + 1)"
    unfolding roundTiesToEven_def Let_def f_def ..
  show ?thesis unfolding r using d by (auto simp: abs_if)
qed

lemma roundTiesToEven_of_int [simp]: "roundTiesToEven (of_int n) = n"
  by (simp add: roundTiesToEven_def)

lemma roundTiesToEven_mono:
  assumes "x \<le> y"
  shows "roundTiesToEven x \<le> roundTiesToEven y"
proof (rule ccontr)
  assume "\<not> roundTiesToEven x \<le> roundTiesToEven y"
  then have "roundTiesToEven y + 1 \<le> roundTiesToEven x" by simp
  then have "(of_int (roundTiesToEven y + 1) :: rat) \<le> of_int (roundTiesToEven x)"
    by (simp only: of_int_le_iff)
  then have 1: "(of_int (roundTiesToEven y) :: rat) + 1 \<le> of_int (roundTiesToEven x)" by simp
  from roundTiesToEven_bounds [of x] roundTiesToEven_bounds [of y] 1 assms
  have "x = y" by (simp add: abs_if split: if_splits)
  with \<open>\<not> roundTiesToEven x \<le> roundTiesToEven y\<close> show False by simp
qed

lemma pow2_add: "(2::rat) powi (a + b) = 2 powi a * 2 powi b"
  by (rule power_int_add) simp

lemma pow2_split: "a + b = c \<Longrightarrow> (2::rat) powi c = 2 powi a * 2 powi b"
  using pow2_add [of a b] by simp

lemma nearest_pos:
  assumes "0 < x"
  shows "nearest x = of_int (roundTiesToEven (x / 2 powi (max (binade x) (- 1022) - 52)))
                       * 2 powi (max (binade x) (- 1022) - 52)"
  using assms by (simp add: nearest_def Let_def)

lemma nearest_minus: "nearest (- x) = - nearest x"
  by (simp add: nearest_def Let_def)

lemma nearest_nonneg:
  assumes "0 \<le> x"
  shows "0 \<le> nearest x"
proof (cases "x = 0")
  case True
  then show ?thesis by (simp add: nearest_def)
next
  case False
  with assms have x: "0 < x" by simp
  define u :: rat where "u = 2 powi (max (binade x) (- 1022) - 52)"
  have u: "0 < u" unfolding u_def by simp
  have "roundTiesToEven 0 \<le> roundTiesToEven (x / u)"
    using x u by (intro roundTiesToEven_mono) simp
  then have "0 \<le> roundTiesToEven (x / u)" by (simp add: roundTiesToEven_def)
  then show ?thesis unfolding nearest_pos [OF x] u_def [symmetric] using u by simp
qed

lemma binade_mono:
  assumes "0 < x" and "x \<le> y"
  shows "binade x \<le> binade y"
proof (rule ccontr)
  assume "\<not> binade x \<le> binade y"
  then have "binade y + 1 \<le> binade x" by simp
  then have "(2::rat) powi (binade y + 1) \<le> 2 powi (binade x)"
    by (intro power_int_increasing) simp_all
  moreover have "y < 2 powi (binade y + 1)" using binade_bounds [of y] assms by simp
  moreover have "2 powi (binade x) \<le> x" using binade_bounds [OF assms(1)] by simp
  ultimately show False using assms(2) by linarith
qed

lemma nearest_pos_mono:
  assumes x: "0 < x" and xy: "x \<le> y"
  shows "nearest x \<le> nearest y"
proof -
  have y: "0 < y" using x xy by simp
  define ex where "ex = max (binade x) (- 1022)"
  define ey where "ey = max (binade y) (- 1022)"
  define ux :: rat where "ux = 2 powi (ex - 52)"
  define uy :: rat where "uy = 2 powi (ey - 52)"
  have ux: "0 < ux" and uy: "0 < uy" unfolding ux_def uy_def by simp_all
  have nx: "nearest x = of_int (roundTiesToEven (x / ux)) * ux"
    unfolding nearest_pos [OF x] ux_def ex_def ..
  have ny: "nearest y = of_int (roundTiesToEven (y / uy)) * uy"
    unfolding nearest_pos [OF y] uy_def ey_def ..
  have le: "ex \<le> ey" unfolding ex_def ey_def using binade_mono [OF x xy] by simp
  show ?thesis
  proof (cases "ex = ey")
    case True
    then have "ux = uy" unfolding ux_def uy_def by simp
    have "x / uy \<le> y / uy" using xy uy by (simp add: divide_right_mono)
    then have "roundTiesToEven (x / uy) \<le> roundTiesToEven (y / uy)" by (rule roundTiesToEven_mono)
    then have "(of_int (roundTiesToEven (x / uy)) :: rat) \<le> of_int (roundTiesToEven (y / uy))"
      by (simp only: of_int_le_iff)
    then show ?thesis unfolding nx ny \<open>ux = uy\<close> using uy by (simp add: mult_right_mono)
  next
    case False
    with le have lt: "ex + 1 \<le> ey" by simp
    then have bey: "binade y = ey" unfolding ey_def ex_def by simp
    have bx: "binade x \<le> ex" unfolding ex_def by simp
    have "x < 2 powi (binade x + 1)" using binade_bounds [OF x] by simp
    also have "\<dots> \<le> 2 powi (ex + 1)" using bx by (intro power_int_increasing) simp_all
    finally have "x / ux < 2 powi (ex + 1) / ux" using ux by (simp add: divide_strict_right_mono)
    also have "2 powi (ex + 1) / ux = 2 powi 53"
      unfolding ux_def by (subst power_int_diff [symmetric]) simp_all
    finally have "x / ux \<le> of_int (2 ^ 53)" by simp
    then have "roundTiesToEven (x / ux) \<le> roundTiesToEven (of_int (2 ^ 53))"
      by (rule roundTiesToEven_mono)
    then have "roundTiesToEven (x / ux) \<le> 2 ^ 53" by (simp only: roundTiesToEven_of_int)
    then have "(of_int (roundTiesToEven (x / ux)) :: rat) \<le> of_int (2 ^ 53)"
      by (simp only: of_int_le_iff)
    then have "nearest x \<le> of_int (2 ^ 53) * ux" unfolding nx using ux by (simp only: mult_right_mono less_imp_le)
    also have "of_int (2 ^ 53) * ux = 2 powi (ex + 1)"
    proof -
      have "(2::rat) powi (ex + 1) = 2 powi 53 * 2 powi (ex - 52)"
        by (rule pow2_split) simp
      then show ?thesis unfolding ux_def by simp
    qed
    also have "\<dots> \<le> 2 powi ey" using lt by (intro power_int_increasing) simp_all
    finally have a: "nearest x \<le> 2 powi ey" .
    have "2 powi ey \<le> y" using binade_bounds [OF y] bey by simp
    then have "2 powi ey / uy \<le> y / uy" using uy by (simp add: divide_right_mono)
    moreover have "2 powi ey / uy = of_int (2 ^ 52)"
    proof -
      have "(2::rat) powi ey / uy = 2 powi 52"
        unfolding uy_def by (subst power_int_diff [symmetric]) simp_all
      then show ?thesis by simp
    qed
    ultimately have "of_int (2 ^ 52) \<le> y / uy" by simp
    then have "roundTiesToEven (of_int (2 ^ 52)) \<le> roundTiesToEven (y / uy)"
      by (rule roundTiesToEven_mono)
    then have "2 ^ 52 \<le> roundTiesToEven (y / uy)" by (simp only: roundTiesToEven_of_int)
    then have "(of_int (2 ^ 52) :: rat) \<le> of_int (roundTiesToEven (y / uy))"
      by (simp only: of_int_le_iff)
    then have "of_int (2 ^ 52) * uy \<le> nearest y" unfolding ny using uy by (simp only: mult_right_mono less_imp_le)
    moreover have "of_int (2 ^ 52) * uy = 2 powi ey"
    proof -
      have "(2::rat) powi ey = 2 powi 52 * 2 powi (ey - 52)"
        by (rule pow2_split) simp
      then show ?thesis unfolding uy_def by simp
    qed
    ultimately have b: "2 powi ey \<le> nearest y" by simp
    from a b show ?thesis by simp
  qed
qed

lemma nearest_mono:
  assumes "x \<le> y"
  shows "nearest x \<le> nearest y"
proof -
  consider "0 < x" | "x \<le> 0" "0 \<le> y" | "y < 0" by linarith
  then show ?thesis
  proof cases
    case 1
    then show ?thesis using assms by (rule nearest_pos_mono)
  next
    case 2
    have "0 \<le> nearest (- x)" using 2 by (intro nearest_nonneg) simp
    then have "nearest x \<le> 0" by (simp add: nearest_minus)
    moreover have "0 \<le> nearest y" using 2 by (intro nearest_nonneg)
    ultimately show ?thesis by simp
  next
    case 3
    have "nearest (- y) \<le> nearest (- x)" using 3 assms by (intro nearest_pos_mono) simp_all
    then show ?thesis by (simp add: nearest_minus)
  qed
qed

lemma nearest_upper:
  assumes "2 powi (- 1022) \<le> x"
  shows "nearest x \<le> x * (1 + 1 / 2 ^ 53)"
proof -
  have x: "0 < x"
  proof -
    have "(0::rat) < 2 powi (- 1022)" by simp
    with assms show ?thesis by linarith
  qed
  have b: "- 1022 \<le> binade x"
  proof (rule ccontr)
    assume "\<not> - 1022 \<le> binade x"
    then have "binade x + 1 \<le> - 1022" by simp
    then have "(2::rat) powi (binade x + 1) \<le> 2 powi (- 1022)"
      by (intro power_int_increasing) simp_all
    with binade_bounds [OF x] assms show False by linarith
  qed
  define u :: rat where "u = 2 powi (binade x - 52)"
  have u: "0 < u" unfolding u_def by simp
  have n: "nearest x = of_int (roundTiesToEven (x / u)) * u"
    unfolding nearest_pos [OF x] u_def using b by (simp add: max_def)
  have "of_int (roundTiesToEven (x / u)) \<le> x / u + 1 / 2"
    using roundTiesToEven_bounds [of "x / u"] by (simp add: abs_if split: if_splits)
  then have "of_int (roundTiesToEven (x / u)) * u \<le> (x / u + 1 / 2) * u"
    using u by (simp only: mult_right_mono less_imp_le)
  also have "\<dots> = x + u / 2" using u by (simp add: field_simps)
  finally have 1: "nearest x \<le> x + u / 2" unfolding n .
  have "(2::rat) powi (binade x) = 2 powi (binade x - 52) * 2 powi 52"
    by (rule pow2_split) simp
  then have "u * 2 ^ 52 \<le> x" using binade_bounds [OF x] unfolding u_def by simp
  then have "u / 2 \<le> x * (1 / 2 ^ 53)" by simp
  with 1 show ?thesis by (simp add: algebra_simps)
qed

lemma binade_ge_iff:
  assumes "0 < r"
  shows "(k \<le> binade r) = (2 powi k \<le> r)"
proof
  assume "k \<le> binade r"
  then have "(2::rat) powi k \<le> 2 powi (binade r)" by (intro power_int_increasing) simp_all
  with binade_bounds [OF assms] show "2 powi k \<le> r" by linarith
next
  assume a: "2 powi k \<le> r"
  show "k \<le> binade r"
  proof (rule ccontr)
    assume "\<not> k \<le> binade r"
    then have "binade r + 1 \<le> k" by simp
    then have "(2::rat) powi (binade r + 1) \<le> 2 powi k" by (intro power_int_increasing) simp_all
    with binade_bounds [OF assms] a show False by linarith
  qed
qed

lemma double_cases:
  "double x = (if 2 powi 1024 \<le> nearest x then PosInfinity
               else if nearest x \<le> - (2 powi 1024) then NegInfinity
               else Finite (nearest x))"
proof -
  define r where "r = nearest x"
  define M :: rat where "M = 2 powi 1024"
  have M: "0 < M" unfolding M_def by simp
  consider "0 < r" | "r = 0" | "r < 0" by linarith
  then have "(if r \<noteq> 0 \<and> 1024 \<le> binade \<bar>r\<bar> then (if 0 < r then PosInfinity else NegInfinity)
         else Finite r) = (if M \<le> r then PosInfinity
               else if r \<le> - M then NegInfinity
               else Finite r)"
  proof cases
    case 1
    with binade_ge_iff [OF 1, of 1024] M show ?thesis unfolding M_def [symmetric] by simp
  next
    case 2
    then show ?thesis using M by simp
  next
    case 3
    then have "0 < - r" by simp
    from binade_ge_iff [OF this, of 1024] 3 M show ?thesis unfolding M_def [symmetric]
      by (auto simp: abs_if)
  qed
  then show ?thesis unfolding double_def r_def M_def Let_def .
qed

lemma double_not_NaN [simp]: "double x \<noteq> NaN"
  unfolding double_cases by (simp del: power_int_numeral)

lemma number_le_trans: "number_le a b \<Longrightarrow> number_le b c \<Longrightarrow> number_le a c"
  by (cases a; cases b; cases c) simp_all

lemma double_mono:
  assumes "x \<le> y"
  shows "number_le (double x) (double y)"
proof -
  define M :: rat where "M = 2 powi 1024"
  have M: "0 < M" unfolding M_def by simp
  have "nearest x \<le> nearest y" using assms by (rule nearest_mono)
  with M show ?thesis unfolding double_cases M_def [symmetric] by auto
qed

lemma number_le_PosInfinity: "x \<noteq> NaN \<Longrightarrow> number_le x PosInfinity"
  by (cases x) simp_all

lemma number_le_NegInfinity: "y \<noteq> NaN \<Longrightarrow> number_le NegInfinity y"
  by (cases y) simp_all

lemma times_number_mono:
  assumes "number_le u v" and "0 < k"
  shows "number_le (times_number u k) (times_number v k)"
proof (cases u)
  case (Finite p)
  note u = this
  show ?thesis
  proof (cases v)
    case (Finite q)
    with u assms have "p * k \<le> q * k" by (simp add: mult_right_mono)
    then show ?thesis unfolding u Finite by (simp add: double_mono)
  next
    case PosInfinity
    with u assms show ?thesis by (simp add: number_le_PosInfinity)
  next
    case NegInfinity
    with u assms show ?thesis by simp
  next
    case NaN
    with u assms show ?thesis by simp
  qed
next
  case PosInfinity
  with assms show ?thesis by (cases v) simp_all
next
  case NegInfinity
  with assms show ?thesis by (cases v) (simp_all add: number_le_NegInfinity)
next
  case NaN
  with assms show ?thesis by simp
qed

section \<open>Properties of the BackpressureController\<close>

lemma alternates_append:
  "alternates p (es @ fs) = (alternates p es \<and> alternates (if even (toggles es) then p else \<not> p) fs)"
proof (induction es arbitrary: p)
  case Nil
  show ?case by (simp add: toggles_def)
next
  case (Cons e es)
  show ?case using Cons.IH by (cases e) (auto simp: toggles_def)
qed

lemma toggles_append: "toggles (es @ fs) = toggles es + toggles fs"
  by (simp add: toggles_def)

lemma interleave_append:
  "interleave (ys @ zs) s =
     (case interleave ys s of (es, s1) \<Rightarrow>
        (case interleave zs s1 of (es', s2) \<Rightarrow> (es @ es', s2)))"
  by (induction ys arbitrary: s) (auto split: prod.splits)

lemma serial_call:
  assumes "suspendedCalls s = []"
  shows "interleave [Call x, Settle 0 True] s =
           (fst (completeCall x (controller s)),
            \<lparr>controller = snd (completeCall x (controller s)), suspendedCalls = []\<rparr>)"
proof -
  obtain es c1 k where i: "invoke x (controller s) = (es, c1, k)"
    by (cases "invoke x (controller s)")
  show ?thesis
  proof (cases k)
    case None
    with i assms show ?thesis by (simp add: completeCall_def)
  next
    case (Some w)
    obtain es' c2 where a: "afterAwait w c1 = (es', c2)" by (cases "afterAwait w c1")
    from i Some assms a show ?thesis by (simp add: completeCall_def)
  qed
qed

lemma serially_Cons: "serially (x # xs) = [Call x, Settle 0 True] @ serially xs"
  by (simp add: serially_def)

lemma serially_run:
  "interleave (serially (x # xs)) \<lparr>controller = c, suspendedCalls = []\<rparr> =
     (case interleave (serially xs)
             \<lparr>controller = snd (completeCall x c), suspendedCalls = []\<rparr> of
        (es', s2) \<Rightarrow> (fst (completeCall x c) @ es', s2))"
  unfolding serially_Cons interleave_append
  by (subst serial_call) simp_all

lemma completeCall_alternates:
  assumes "completeCall x c = (es, c1)"
  shows "alternates (isPaused c) es \<and>
         isPaused c1 = (if even (toggles es) then isPaused c else \<not> isPaused c)"
  using assms
  by (cases x)
    (auto simp: completeCall_def beforeBatchProcessing_def afterBatchProcessing_def Let_def
      toggles_def split: if_splits)

lemma serially_alternates:
  assumes "interleave (serially xs) \<lparr>controller = c, suspendedCalls = []\<rparr> = (es, s)"
  shows "alternates (isPaused c) es \<and> suspendedCalls s = [] \<and>
         isPaused (controller s) = (if even (toggles es) then isPaused c else \<not> isPaused c)"
  using assms
proof (induction xs arbitrary: c es s)
  case Nil
  then show ?case by (auto simp: serially_def toggles_def)
next
  case (Cons x xs)
  obtain e1 c1 where cc: "completeCall x c = (e1, c1)" by (cases "completeCall x c")
  obtain e2 s2 where r: "interleave (serially xs) \<lparr>controller = c1, suspendedCalls = []\<rparr> = (e2, s2)"
    by (cases "interleave (serially xs) \<lparr>controller = c1, suspendedCalls = []\<rparr>")
  from Cons.prems cc r have es: "es = e1 @ e2" and s: "s = s2"
    by (simp_all add: serially_run)
  from completeCall_alternates [OF cc] Cons.IH [OF r] show ?case
    unfolding es s by (auto simp: alternates_append toggles_append)
qed

lemma step_pause:
  assumes "ConsumerPause \<in> set (fst (controllerStep y s))"
  shows "y = Call BeforeBatchProcessing \<and> \<not> isPaused (controller s) \<and>
         suspendedCalls (snd (controllerStep y s)) = suspendedCalls s @ [AwaitingPause] \<and>
         number_ge (utilizationPercent (controller (snd (controllerStep y s)))) (Finite (threshold (controller s)))"
proof (cases y)
  case (Call x)
  with assms show ?thesis
    by (cases x)
      (auto simp: beforeBatchProcessing_def afterBatchProcessing_def Let_def split: if_splits)
next
  case (Settle i f)
  with assms show ?thesis
    by (cases "suspendedCalls s ! i") (auto simp: Let_def split: if_splits)
qed

lemma step_resume:
  assumes "ConsumerResume \<in> set (fst (controllerStep y s))"
  shows "y = Call AfterBatchProcessing \<and> isPaused (controller s) \<and>
         suspendedCalls (snd (controllerStep y s)) = suspendedCalls s @ [AwaitingResume] \<and>
         number_le (utilizationPercent (controller (snd (controllerStep y s))))
           (times_number (Finite (threshold (controller s))) (nearest (6 / 10)))"
proof (cases y)
  case (Call x)
  with assms show ?thesis
    by (cases x)
      (auto simp: beforeBatchProcessing_def afterBatchProcessing_def Let_def split: if_splits)
next
  case (Settle i f)
  with assms show ?thesis
    by (cases "suspendedCalls s ! i") (auto simp: Let_def split: if_splits)
qed

lemma step_unpause:
  assumes "isPaused (controller s)" and "\<not> isPaused (controller (snd (controllerStep y s)))"
  shows "case y of Call x \<Rightarrow> False
         | Settle i f \<Rightarrow> f \<and> i < length (suspendedCalls s) \<and> suspendedCalls s ! i = AwaitingResume"
proof (cases y)
  case (Call x)
  with assms show ?thesis
    by (cases x)
      (auto simp: beforeBatchProcessing_def afterBatchProcessing_def Let_def split: if_splits)
next
  case (Settle i f)
  with assms show ?thesis
    by (cases "suspendedCalls s ! i") (auto simp: Let_def split: if_splits)
qed

lemma utilizationPercent_mono:
  assumes "0 < maxConcurrency c" and "a \<le> b"
  shows "number_le (utilizationPercent (c\<lparr>activeBatches := a\<rparr>))
                   (utilizationPercent (c\<lparr>activeBatches := b\<rparr>))"
proof -
  have "(of_int a :: rat) / of_int (maxConcurrency c) \<le> of_int b / of_int (maxConcurrency c)"
    using assms by (simp add: divide_right_mono)
  then have "number_le (divide_number a (maxConcurrency c)) (divide_number b (maxConcurrency c))"
    using assms(1) by (simp add: divide_number_def double_mono)
  then show ?thesis unfolding utilizationPercent_def by (simp add: times_number_mono)
qed

lemma point_six: "nearest (6 / 10) = 5404319552844595 / 9007199254740992"
  by code_simp

lemma resume_threshold_below:
  assumes "1 \<le> t" and "t \<le> 100"
  shows "\<exists>r. times_number (Finite t) (nearest (6 / 10)) = Finite r \<and> r < t"
proof -
  define x where "x = t * (5404319552844595 / 9007199254740992)"
  have "(2::rat) powi (- 1022) \<le> 2 powi (- 1)" by (intro power_int_increasing) simp_all
  also have "\<dots> \<le> x" unfolding x_def using assms(1) by simp
  finally have "nearest x \<le> x * (1 + 1 / 2 ^ 53)" by (rule nearest_upper)
  also have "\<dots> < t" unfolding x_def using assms(1) by simp
  finally have lt: "nearest x < t" .
  have "0 \<le> nearest x" unfolding x_def using assms(1) by (intro nearest_nonneg) simp
  moreover have "(100::rat) < 2 powi 1024"
  proof -
    have "(100::rat) < 2 powi 7" by simp
    also have "\<dots> \<le> 2 powi 1024" by (intro power_int_increasing) simp_all
    finally show ?thesis .
  qed
  ultimately have d: "double x = Finite (nearest x)"
    using lt assms(2) unfolding double_cases by (simp del: power_int_numeral)
  have "times_number (Finite t) (nearest (6 / 10)) = double x"
    unfolding x_def point_six by (simp only: times_number.simps)
  with d lt show ?thesis by (simp only:) blast
qed

lemma resume_below:
  assumes "1 \<le> t" and "t \<le> 100"
    and "number_le u (times_number (Finite t) (nearest (6 / 10)))"
  shows "\<not> number_ge u (Finite t)"
proof -
  from resume_threshold_below [OF assms(1,2)] obtain r
    where r: "times_number (Finite t) (nearest (6 / 10)) = Finite r" "r < t" by blast
  with assms(3) show ?thesis unfolding number_ge_def by (cases u) simp_all
qed

lemma completeCall_config:
  "completeCall x c = (es, c1) \<Longrightarrow> maxConcurrency c1 = maxConcurrency c \<and> threshold c1 = threshold c"
  by (cases x)
    (auto simp: completeCall_def beforeBatchProcessing_def afterBatchProcessing_def Let_def
      split: if_splits)

lemma completeCall_below_unless_paused:
  assumes m: "0 < maxConcurrency c" and t: "1 \<le> threshold c" "threshold c \<le> 100"
    and inv: "below_unless_paused c" and cc: "completeCall x c = (es, c1)"
  shows "below_unless_paused c1"
proof (cases x)
  case BeforeBatchProcessing
  with cc show ?thesis
    by (auto simp: completeCall_def beforeBatchProcessing_def Let_def below_unless_paused_def
        utilizationPercent_def split: if_splits)
next
  case AfterBatchProcessing
  let ?c = "c\<lparr>activeBatches := activeBatches c - 1\<rparr>"
  let ?T = "times_number (Finite (threshold c)) (nearest (6 / 10))"
  show ?thesis
  proof (cases "number_le (utilizationPercent ?c) ?T \<and> isPaused c")
    case True
    with cc AfterBatchProcessing have c1: "c1 = ?c\<lparr>isPaused := False\<rparr>"
      by (simp add: completeCall_def afterBatchProcessing_def Let_def)
    have u: "utilizationPercent c1 = utilizationPercent ?c"
      unfolding c1 by (simp add: utilizationPercent_def)
    from True resume_below [OF t] have "\<not> number_ge (utilizationPercent ?c) (Finite (threshold c))"
      by blast
    then show ?thesis unfolding below_unless_paused_def u unfolding c1 by simp
  next
    case False
    with cc AfterBatchProcessing have c1: "c1 = ?c"
      by (auto simp: completeCall_def afterBatchProcessing_def Let_def)
    show ?thesis
    proof (cases "isPaused c")
      case True
      then show ?thesis unfolding below_unless_paused_def c1 by simp
    next
      case np: False
      with inv have b: "\<not> number_le (Finite (threshold c)) (utilizationPercent c)"
        by (simp add: below_unless_paused_def number_ge_def)
      have "number_le (utilizationPercent (c\<lparr>activeBatches := activeBatches c - 1\<rparr>))
              (utilizationPercent (c\<lparr>activeBatches := activeBatches c\<rparr>))"
        using m by (intro utilizationPercent_mono) simp_all
      then have "number_le (utilizationPercent ?c) (utilizationPercent c)" by simp
      with b have "\<not> number_le (Finite (threshold c)) (utilizationPercent ?c)"
        using number_le_trans by blast
      then show ?thesis unfolding below_unless_paused_def c1 by (simp add: number_ge_def)
    qed
  qed
qed

lemma serially_below_unless_paused:
  assumes "0 < maxConcurrency c" and "1 \<le> threshold c" and "threshold c \<le> 100"
    and "below_unless_paused c"
    and "interleave (serially xs) \<lparr>controller = c, suspendedCalls = []\<rparr> = (es, s)"
  shows "below_unless_paused (controller s) \<and> suspendedCalls s = [] \<and>
         maxConcurrency (controller s) = maxConcurrency c \<and> threshold (controller s) = threshold c"
  using assms
proof (induction xs arbitrary: c es s)
  case Nil
  then show ?case by (auto simp: serially_def)
next
  case (Cons x xs)
  obtain e1 c1 where cc: "completeCall x c = (e1, c1)" by (cases "completeCall x c")
  obtain e2 s2 where r: "interleave (serially xs) \<lparr>controller = c1, suspendedCalls = []\<rparr> = (e2, s2)"
    by (cases "interleave (serially xs) \<lparr>controller = c1, suspendedCalls = []\<rparr>")
  from Cons.prems(5) cc r have s: "s = s2" by (simp add: serially_run)
  have b: "below_unless_paused c1"
    using Cons.prems(1-4) cc by (rule completeCall_below_unless_paused)
  from completeCall_config [OF cc] Cons.prems
  have cfg: "0 < maxConcurrency c1" "1 \<le> threshold c1" "threshold c1 \<le> 100" by simp_all
  from Cons.IH [OF cfg b r] completeCall_config [OF cc] show ?case unfolding s by simp
qed

lemma resume_at_80: "times_number (Finite 80) (nearest (6 / 10)) = Finite 48"
  by code_simp

lemma before_below:
  assumes m: "0 < m"
    and top: "\<not> number_ge (utilizationPercent
                 \<lparr>activeBatches = int n, maxConcurrency = m, threshold = t, isPaused = False\<rparr>) (Finite t)"
    and k: "k \<le> n"
  shows "interleave (serially (replicate k BeforeBatchProcessing))
           (startController (newBackpressureController m t))
         = ([], \<lparr>controller = \<lparr>activeBatches = int k, maxConcurrency = m, threshold = t,
                                isPaused = False\<rparr>,
                 suspendedCalls = []\<rparr>)"
  using k
proof (induction k)
  case 0
  show ?case by (simp add: serially_def startController_def newBackpressureController_def)
next
  case (Suc k)
  let ?c = "\<lparr>activeBatches = int k, maxConcurrency = m, threshold = t, isPaused = False\<rparr>"
  let ?n = "\<lparr>activeBatches = int n, maxConcurrency = m, threshold = t, isPaused = False\<rparr>"
  have "number_le (utilizationPercent (?n\<lparr>activeBatches := int k + 1\<rparr>))
                  (utilizationPercent (?n\<lparr>activeBatches := int n\<rparr>))"
    using m Suc.prems by (intro utilizationPercent_mono) simp_all
  moreover have "utilizationPercent (?n\<lparr>activeBatches := int n\<rparr>) = utilizationPercent ?n"
    by simp
  ultimately have "\<not> number_le (Finite t) (utilizationPercent (?n\<lparr>activeBatches := int k + 1\<rparr>))"
    using top number_le_trans unfolding number_ge_def by metis
  moreover have "utilizationPercent (?n\<lparr>activeBatches := int k + 1\<rparr>)
                   = utilizationPercent (?c\<lparr>activeBatches := activeBatches ?c + 1\<rparr>)"
    by (simp add: utilizationPercent_def)
  ultimately have "\<not> number_ge (utilizationPercent (?c\<lparr>activeBatches := activeBatches ?c + 1\<rparr>)) (Finite t)"
    unfolding number_ge_def by metis
  then have "beforeBatchProcessing ?c = ([], ?c\<lparr>activeBatches := activeBatches ?c + 1\<rparr>, None)"
    unfolding beforeBatchProcessing_def Let_def by simp
  then have b: "beforeBatchProcessing ?c = ([], ?c\<lparr>activeBatches := int k + 1\<rparr>, None)"
    by simp
  have "replicate (Suc k) BeforeBatchProcessing = replicate k BeforeBatchProcessing @ [BeforeBatchProcessing]"
    by (simp add: replicate_append_same)
  then have "serially (replicate (Suc k) BeforeBatchProcessing)
          = serially (replicate k BeforeBatchProcessing) @ [Call BeforeBatchProcessing, Settle 0 True]"
    unfolding serially_def by (simp only: map_append concat_append) simp
  then show ?case using Suc.IH Suc.prems b by (simp add: interleave_append)
qed

text \<open>
  Claim C3, as amended. The utilisation is the one the controller computes, in double
  arithmetic: \<^verbatim>\<open>(activeBatches / maxConcurrency) * 100\<close>, compared with the threshold in
  percent and with \<^verbatim>\<open>threshold * 0.6\<close>.
  \<^item> A controller built with a positive \<open>maxConcurrency\<close> \<open>m\<close> and a threshold \<open>t\<close> between 1
    and 100 is driven by any sequence \<open>xs\<close> of calls that do not overlap and whose
    requests succeed: in the state reached, intake is paused whenever the utilisation
    is at least \<open>t\<close>.
  \<^item> Whatever the interleaving, in any state \<open>r\<close> of the controller and its suspended
    calls: a step issues \<^verbatim>\<open>consumer.pause\<close> only when the utilisation it computes is
    at least the threshold; it issues \<^verbatim>\<open>consumer.resume\<close> only from a paused state and
    when the utilisation it computes is at most \<^verbatim>\<open>threshold * 0.6\<close>; and \<open>isPaused\<close>
    becomes false only where the request of such a resume is fulfilled. A call of
    \<^verbatim>\<open>afterBatchProcessing\<close> on a paused controller \<open>c\<close> that computes a utilisation
    above \<^verbatim>\<open>threshold * 0.6\<close> issues nothing and leaves it paused.
  \<^item> With a threshold of 80, \<^verbatim>\<open>threshold * 0.6\<close> is 48.
\<close>

theorem backpressure_hysteresis:
  assumes "0 < m" and "1 \<le> t" and "t \<le> 100"
    and "interleave (serially xs) (startController (newBackpressureController m t)) = (es, s)"
  shows "(number_ge (utilizationPercent (controller s)) (Finite t) \<longrightarrow> isPaused (controller s)) \<and>
         (ConsumerPause \<in> set (fst (controllerStep y r)) \<longrightarrow>
            number_ge (utilizationPercent (controller (snd (controllerStep y r))))
              (Finite (threshold (controller r)))) \<and>
         (ConsumerResume \<in> set (fst (controllerStep y r)) \<longrightarrow>
            isPaused (controller r) \<and>
            number_le (utilizationPercent (controller (snd (controllerStep y r))))
              (times_number (Finite (threshold (controller r))) (nearest (6 / 10)))) \<and>
         (isPaused (controller r) \<and> \<not> isPaused (controller (snd (controllerStep y r))) \<longrightarrow>
            (case y of Call x \<Rightarrow> False
             | Settle i f \<Rightarrow> f \<and> i < length (suspendedCalls r) \<and> suspendedCalls r ! i = AwaitingResume)) \<and>
         (isPaused c \<and>
          \<not> number_le (utilizationPercent (c\<lparr>activeBatches := activeBatches c - 1\<rparr>))
              (times_number (Finite (threshold c)) (nearest (6 / 10))) \<longrightarrow>
            afterBatchProcessing c = ([], c\<lparr>activeBatches := activeBatches c - 1\<rparr>, None)) \<and>
         times_number (Finite 80) (nearest (6 / 10)) = Finite 48"
proof -
  let ?c0 = "newBackpressureController m t"
  have c0: "maxConcurrency ?c0 = m" "threshold ?c0 = t"
    by (simp_all add: newBackpressureController_def)
  have u0: "utilizationPercent ?c0 = times_number (double 0) 100"
    using assms(1) by (simp add: utilizationPercent_def divide_number_def newBackpressureController_def)
  have z: "nearest 0 = 0" by (simp add: nearest_def)
  have "double 0 = Finite 0" unfolding double_def z by simp
  then have "utilizationPercent ?c0 = Finite 0" unfolding u0 by (simp add: double_def z)
  then have b0: "below_unless_paused ?c0"
    using assms(2) by (simp add: below_unless_paused_def number_ge_def c0)
  have r: "interleave (serially xs) \<lparr>controller = ?c0, suspendedCalls = []\<rparr> = (es, s)"
    using assms(4) by (simp add: startController_def)
  from serially_below_unless_paused [OF _ _ _ b0 r] assms(1-3) c0
  have "below_unless_paused (controller s)" and "threshold (controller s) = t" by simp_all
  then have 1: "number_ge (utilizationPercent (controller s)) (Finite t) \<longrightarrow> isPaused (controller s)"
    by (auto simp: below_unless_paused_def)
  have 2: "ConsumerPause \<in> set (fst (controllerStep y r)) \<longrightarrow>
            number_ge (utilizationPercent (controller (snd (controllerStep y r))))
              (Finite (threshold (controller r)))"
    using step_pause [of y r] by blast
  have 3: "ConsumerResume \<in> set (fst (controllerStep y r)) \<longrightarrow>
            isPaused (controller r) \<and>
            number_le (utilizationPercent (controller (snd (controllerStep y r))))
              (times_number (Finite (threshold (controller r))) (nearest (6 / 10)))"
    using step_resume [of y r] by blast
  have 4: "isPaused (controller r) \<and> \<not> isPaused (controller (snd (controllerStep y r))) \<longrightarrow>
            (case y of Call x \<Rightarrow> False
             | Settle i f \<Rightarrow> f \<and> i < length (suspendedCalls r) \<and> suspendedCalls r ! i = AwaitingResume)"
    using step_unpause [of r y] by blast
  have 5: "isPaused c \<and>
          \<not> number_le (utilizationPercent (c\<lparr>activeBatches := activeBatches c - 1\<rparr>))
              (times_number (Finite (threshold c)) (nearest (6 / 10))) \<longrightarrow>
            afterBatchProcessing c = ([], c\<lparr>activeBatches := activeBatches c - 1\<rparr>, None)"
    by (simp add: afterBatchProcessing_def Let_def)
  from 1 2 3 4 5 resume_at_80 show ?thesis by blast
qed

theorem backpressure_hysteresis_witness:
  "(0::int) < 5 \<and> (1::rat) \<le> 80 \<and> (80::rat) \<le> 100 \<and>
   interleave (serially [BeforeBatchProcessing, BeforeBatchProcessing, BeforeBatchProcessing,
                             BeforeBatchProcessing])
       (startController (newBackpressureController 5 80))
     = ([ConsumerPause, MetricsRecordPause],
        \<lparr>controller = \<lparr>activeBatches = 4, maxConcurrency = 5, threshold = 80, isPaused = True\<rparr>,
         suspendedCalls = []\<rparr>) \<and>
   number_ge (utilizationPercent
       \<lparr>activeBatches = 4, maxConcurrency = 5, threshold = 80, isPaused = True\<rparr>) (Finite 80) \<and>
   afterBatchProcessing \<lparr>activeBatches = 4, maxConcurrency = 5, threshold = 80, isPaused = True\<rparr>
     = ([], \<lparr>activeBatches = 3, maxConcurrency = 5, threshold = 80, isPaused = True\<rparr>, None) \<and>
   controllerStep (Call AfterBatchProcessing)
      \<lparr>controller = \<lparr>activeBatches = 3, maxConcurrency = 5, threshold = 80, isPaused = True\<rparr>,
       suspendedCalls = []\<rparr>
     = ([ConsumerResume],
        \<lparr>controller = \<lparr>activeBatches = 2, maxConcurrency = 5, threshold = 80, isPaused = True\<rparr>,
         suspendedCalls = [AwaitingResume]\<rparr>) \<and>
   number_le (utilizationPercent
       \<lparr>activeBatches = 2, maxConcurrency = 5, threshold = 80, isPaused = True\<rparr>) (Finite 48) \<and>
   times_number (Finite 80) (nearest (6 / 10)) = Finite 48"
proof -
  let ?c4 = "\<lparr>activeBatches = 4, maxConcurrency = 5, threshold = 80, isPaused = True\<rparr>"
  let ?s3 = "\<lparr>controller = \<lparr>activeBatches = 3, maxConcurrency = 5, threshold = 80, isPaused = True\<rparr>,
       suspendedCalls = []\<rparr>"
  let ?s2 = "\<lparr>controller = \<lparr>activeBatches = 2, maxConcurrency = 5, threshold = 80, isPaused = True\<rparr>,
         suspendedCalls = [AwaitingResume]\<rparr>"
  have r: "interleave (serially [BeforeBatchProcessing, BeforeBatchProcessing, BeforeBatchProcessing,
                             BeforeBatchProcessing])
       (startController (newBackpressureController 5 80))
     = ([ConsumerPause, MetricsRecordPause], \<lparr>controller = ?c4, suspendedCalls = []\<rparr>)"
    by code_simp
  have g: "number_ge (utilizationPercent ?c4) (Finite 80)" by code_simp
  have a: "afterBatchProcessing ?c4
     = ([], \<lparr>activeBatches = 3, maxConcurrency = 5, threshold = 80, isPaused = True\<rparr>, None)"
    by code_simp
  have q: "controllerStep (Call AfterBatchProcessing) ?s3 = ([ConsumerResume], ?s2)" by code_simp
  have m: "(0::int) < 5" and t: "(1::rat) \<le> 80" "(80::rat) \<le> 100" by simp_all
  note h = backpressure_hysteresis [OF m t r, where y = "Call AfterBatchProcessing" and r = ?s3
      and c = ?c4]
  from h have 1: "times_number (Finite 80) (nearest (6 / 10)) = Finite 48" by blast
  from h have "ConsumerResume \<in> set (fst (controllerStep (Call AfterBatchProcessing) ?s3)) \<longrightarrow>
            isPaused (controller ?s3) \<and>
            number_le (utilizationPercent (controller (snd (controllerStep (Call AfterBatchProcessing) ?s3))))
              (times_number (Finite (threshold (controller ?s3))) (nearest (6 / 10)))"
    by blast
  then have 2: "number_le (utilizationPercent
       \<lparr>activeBatches = 2, maxConcurrency = 5, threshold = 80, isPaused = True\<rparr>) (Finite 48)"
    unfolding q using 1 by simp
  from m t r g a q 2 1 show ?thesis by (simp only:)
qed

text \<open>
  Claim C3 as stated takes the ratio exactly and holds in every reachable state. With
  \<open>maxConcurrency\<close> 100 and threshold 29, twenty-nine \<^verbatim>\<open>beforeBatchProcessing\<close> calls
  that do not overlap leave 29 batches active and intake not paused: \<^verbatim>\<open>(29 / 100) * 100\<close>
  is \<open>28.999999999999996\<close> in double arithmetic. With \<open>maxConcurrency\<close> 5 and threshold
  80, a resume requested at two active batches and fulfilled after two further batches
  have started leaves four batches active (80 percent) and intake not paused. With
  \<open>maxConcurrency\<close> 1 and threshold 80, a \<^verbatim>\<open>beforeBatchProcessing\<close> call whose pause
  request is rejected leaves one batch active (100 percent) and intake not paused.
\<close>

theorem backpressure_hysteresis_counterexample:
  "interleave (serially (replicate 29 BeforeBatchProcessing))
       (startController (newBackpressureController 100 29))
     = ([], \<lparr>controller = \<lparr>activeBatches = 29, maxConcurrency = 100, threshold = 29,
                            isPaused = False\<rparr>,
             suspendedCalls = []\<rparr>) \<and>
   (29::rat) \<le> 29 / 100 * 100 \<and>
   interleave (serially [BeforeBatchProcessing, BeforeBatchProcessing, BeforeBatchProcessing,
                             BeforeBatchProcessing, AfterBatchProcessing]
               @ [Call AfterBatchProcessing, Call BeforeBatchProcessing,
                  Call BeforeBatchProcessing, Settle 0 True])
       (startController (newBackpressureController 5 80))
     = ([ConsumerPause, MetricsRecordPause, ConsumerResume, MetricsRecordResume],
        \<lparr>controller = \<lparr>activeBatches = 4, maxConcurrency = 5, threshold = 80, isPaused = False\<rparr>,
         suspendedCalls = []\<rparr>) \<and>
   (80::rat) \<le> 4 / 5 * 100 \<and>
   interleave [Call BeforeBatchProcessing, Settle 0 False] (startController (newBackpressureController 1 80))
     = ([ConsumerPause],
        \<lparr>controller = \<lparr>activeBatches = 1, maxConcurrency = 1, threshold = 80, isPaused = False\<rparr>,
         suspendedCalls = []\<rparr>) \<and>
   (80::rat) \<le> 1 / 1 * 100"
proof -
  have top: "\<not> number_ge (utilizationPercent
          \<lparr>activeBatches = int 29, maxConcurrency = 100, threshold = 29, isPaused = False\<rparr>) (Finite 29)"
    by code_simp
  from before_below [of 100 29 29 29, OF _ top]
  have a: "interleave (serially (replicate 29 BeforeBatchProcessing))
       (startController (newBackpressureController 100 29))
     = ([], \<lparr>controller = \<lparr>activeBatches = 29, maxConcurrency = 100, threshold = 29,
                            isPaused = False\<rparr>,
             suspendedCalls = []\<rparr>)"
    by simp
  have b: "interleave (serially [BeforeBatchProcessing, BeforeBatchProcessing, BeforeBatchProcessing,
                             BeforeBatchProcessing, AfterBatchProcessing]
               @ [Call AfterBatchProcessing, Call BeforeBatchProcessing,
                  Call BeforeBatchProcessing, Settle 0 True])
       (startController (newBackpressureController 5 80))
     = ([ConsumerPause, MetricsRecordPause, ConsumerResume, MetricsRecordResume],
        \<lparr>controller = \<lparr>activeBatches = 4, maxConcurrency = 5, threshold = 80, isPaused = False\<rparr>,
         suspendedCalls = []\<rparr>)"
    by code_simp
  have c: "interleave [Call BeforeBatchProcessing, Settle 0 False] (startController (newBackpressureController 1 80))
     = ([ConsumerPause],
        \<lparr>controller = \<lparr>activeBatches = 1, maxConcurrency = 1, threshold = 80, isPaused = False\<rparr>,
         suspendedCalls = []\<rparr>)"
    by code_simp
  from a b c show ?thesis by simp
qed

text \<open>
  Claim C10, as amended. Whatever the interleaving, in any state \<open>s\<close> of the controller and
  its suspended calls: a step issues \<^verbatim>\<open>consumer.pause\<close> only as the start of a
  \<^verbatim>\<open>beforeBatchProcessing\<close> call in a state where \<open>isPaused\<close> is false, and that call
  sets it true when its request is fulfilled; a step issues \<^verbatim>\<open>consumer.resume\<close> only
  as the start of an \<^verbatim>\<open>afterBatchProcessing\<close> call in a state where \<open>isPaused\<close> is true,
  and that call sets it false when its request is fulfilled. For every sequence \<open>xs\<close> of
  calls that do not overlap and whose requests succeed, from any state \<open>c\<close> of the
  object, the calls of \<^verbatim>\<open>consumer.pause\<close> and \<^verbatim>\<open>consumer.resume\<close> alternate: never two
  pauses without a resume between them, never two resumes without a pause between them.
\<close>

theorem pause_resume_alternate:
  "alternates (isPaused c) (fst (interleave (serially xs) (startController c))) \<and>
   (ConsumerPause \<in> set (fst (controllerStep y s)) \<longrightarrow>
      y = Call BeforeBatchProcessing \<and> \<not> isPaused (controller s) \<and>
      suspendedCalls (snd (controllerStep y s)) = suspendedCalls s @ [AwaitingPause]) \<and>
   (i < length (suspendedCalls s) \<and> suspendedCalls s ! i = AwaitingPause \<longrightarrow>
      isPaused (controller (snd (controllerStep (Settle i True) s)))) \<and>
   (ConsumerResume \<in> set (fst (controllerStep y s)) \<longrightarrow>
      y = Call AfterBatchProcessing \<and> isPaused (controller s) \<and>
      suspendedCalls (snd (controllerStep y s)) = suspendedCalls s @ [AwaitingResume]) \<and>
   (i < length (suspendedCalls s) \<and> suspendedCalls s ! i = AwaitingResume \<longrightarrow>
      \<not> isPaused (controller (snd (controllerStep (Settle i True) s))))"
proof -
  obtain es s1 where r: "interleave (serially xs) \<lparr>controller = c, suspendedCalls = []\<rparr> = (es, s1)"
    by (cases "interleave (serially xs) \<lparr>controller = c, suspendedCalls = []\<rparr>")
  from serially_alternates [OF r] r
  have a: "alternates (isPaused c) (fst (interleave (serially xs) (startController c)))"
    by (simp add: startController_def)
  have b: "ConsumerPause \<in> set (fst (controllerStep y s)) \<longrightarrow>
      y = Call BeforeBatchProcessing \<and> \<not> isPaused (controller s) \<and>
      suspendedCalls (snd (controllerStep y s)) = suspendedCalls s @ [AwaitingPause]"
    using step_pause [of y s] by blast
  have d: "ConsumerResume \<in> set (fst (controllerStep y s)) \<longrightarrow>
      y = Call AfterBatchProcessing \<and> isPaused (controller s) \<and>
      suspendedCalls (snd (controllerStep y s)) = suspendedCalls s @ [AwaitingResume]"
    using step_resume [of y s] by blast
  have e: "i < length (suspendedCalls s) \<and> suspendedCalls s ! i = AwaitingPause \<longrightarrow>
      isPaused (controller (snd (controllerStep (Settle i True) s)))"
    by (simp add: Let_def)
  have f: "i < length (suspendedCalls s) \<and> suspendedCalls s ! i = AwaitingResume \<longrightarrow>
      \<not> isPaused (controller (snd (controllerStep (Settle i True) s)))"
    by (simp add: Let_def)
  from a b d e f show ?thesis by blast
qed

theorem pause_resume_alternate_witness:
  "fst (interleave (serially [BeforeBatchProcessing, BeforeBatchProcessing, AfterBatchProcessing,
             BeforeBatchProcessing, AfterBatchProcessing, AfterBatchProcessing,
             BeforeBatchProcessing, BeforeBatchProcessing])
          (startController (newBackpressureController 2 80)))
     = [ConsumerPause, MetricsRecordPause, ConsumerResume, MetricsRecordResume,
        ConsumerPause, MetricsRecordPause] \<and>
   alternates False [ConsumerPause, MetricsRecordPause, ConsumerResume, MetricsRecordResume,
        ConsumerPause, MetricsRecordPause] \<and>
   controllerStep (Call BeforeBatchProcessing)
      \<lparr>controller = \<lparr>activeBatches = 1, maxConcurrency = 2, threshold = 80, isPaused = False\<rparr>,
       suspendedCalls = []\<rparr>
     = ([ConsumerPause],
        \<lparr>controller = \<lparr>activeBatches = 2, maxConcurrency = 2, threshold = 80, isPaused = False\<rparr>,
         suspendedCalls = [AwaitingPause]\<rparr>) \<and>
   isPaused (controller (snd (controllerStep (Settle 0 True)
        \<lparr>controller = \<lparr>activeBatches = 2, maxConcurrency = 2, threshold = 80, isPaused = False\<rparr>,
         suspendedCalls = [AwaitingPause]\<rparr>))) \<and>
   controllerStep (Call AfterBatchProcessing)
      \<lparr>controller = \<lparr>activeBatches = 1, maxConcurrency = 2, threshold = 80, isPaused = True\<rparr>,
       suspendedCalls = []\<rparr>
     = ([ConsumerResume],
        \<lparr>controller = \<lparr>activeBatches = 0, maxConcurrency = 2, threshold = 80, isPaused = True\<rparr>,
         suspendedCalls = [AwaitingResume]\<rparr>) \<and>
   \<not> isPaused (controller (snd (controllerStep (Settle 0 True)
        \<lparr>controller = \<lparr>activeBatches = 0, maxConcurrency = 2, threshold = 80, isPaused = True\<rparr>,
         suspendedCalls = [AwaitingResume]\<rparr>)))"
proof -
  let ?xs = "[BeforeBatchProcessing, BeforeBatchProcessing, AfterBatchProcessing,
             BeforeBatchProcessing, AfterBatchProcessing, AfterBatchProcessing,
             BeforeBatchProcessing, BeforeBatchProcessing]"
  let ?s1 = "\<lparr>controller = \<lparr>activeBatches = 1, maxConcurrency = 2, threshold = 80, isPaused = False\<rparr>,
       suspendedCalls = []\<rparr>"
  let ?s2 = "\<lparr>controller = \<lparr>activeBatches = 2, maxConcurrency = 2, threshold = 80, isPaused = False\<rparr>,
         suspendedCalls = [AwaitingPause]\<rparr>"
  let ?s3 = "\<lparr>controller = \<lparr>activeBatches = 1, maxConcurrency = 2, threshold = 80, isPaused = True\<rparr>,
       suspendedCalls = []\<rparr>"
  let ?s4 = "\<lparr>controller = \<lparr>activeBatches = 0, maxConcurrency = 2, threshold = 80, isPaused = True\<rparr>,
         suspendedCalls = [AwaitingResume]\<rparr>"
  have r: "fst (interleave (serially ?xs) (startController (newBackpressureController 2 80)))
     = [ConsumerPause, MetricsRecordPause, ConsumerResume, MetricsRecordResume,
        ConsumerPause, MetricsRecordPause]"
    by code_simp
  have p: "controllerStep (Call BeforeBatchProcessing) ?s1 = ([ConsumerPause], ?s2)" by code_simp
  have q: "controllerStep (Call AfterBatchProcessing) ?s3 = ([ConsumerResume], ?s4)" by code_simp
  have c: "isPaused (newBackpressureController 2 80) = False"
    by (simp add: newBackpressureController_def)
  from pause_resume_alternate [where c = "newBackpressureController 2 80" and xs = ?xs
      and y = "Call BeforeBatchProcessing" and s = ?s1 and i = 0]
  have 1: "alternates False [ConsumerPause, MetricsRecordPause, ConsumerResume, MetricsRecordResume,
        ConsumerPause, MetricsRecordPause]"
    unfolding r c by (rule conjunct1)
  from pause_resume_alternate [where c = "newBackpressureController 2 80" and xs = ?xs
      and y = "Call BeforeBatchProcessing" and s = ?s2 and i = 0]
  have 2: "isPaused (controller (snd (controllerStep (Settle 0 True) ?s2)))" by simp
  from pause_resume_alternate [where c = "newBackpressureController 2 80" and xs = ?xs
      and y = "Call BeforeBatchProcessing" and s = ?s4 and i = 0]
  have 3: "\<not> isPaused (controller (snd (controllerStep (Settle 0 True) ?s4)))" by simp
  from r 1 p 2 q 3 show ?thesis by (simp only:) simp
qed

text \<open>
  Claim C10 as stated holds for every interleaving. Two \<^verbatim>\<open>beforeBatchProcessing\<close>
  calls on a new controller with \<open>maxConcurrency\<close> 1 and threshold 80, the second one
  started while the first awaits \<^verbatim>\<open>consumer.pause\<close>, both find \<open>isPaused\<close> false and
  both call \<^verbatim>\<open>consumer.pause\<close>. So do two such calls that do not overlap when the
  request of the first one is rejected.
\<close>

theorem pause_resume_alternate_counterexample:
  "fst (interleave [Call BeforeBatchProcessing, Call BeforeBatchProcessing, Settle 0 True, Settle 0 True]
          (startController (newBackpressureController 1 80)))
     = [ConsumerPause, ConsumerPause, MetricsRecordPause, MetricsRecordPause] \<and>
   \<not> alternates False [ConsumerPause, ConsumerPause, MetricsRecordPause, MetricsRecordPause] \<and>
   fst (interleave [Call BeforeBatchProcessing, Settle 0 False, Call AfterBatchProcessing,
                    Call BeforeBatchProcessing]
          (startController (newBackpressureController 1 80)))
     = [ConsumerPause, ConsumerPause] \<and>
   \<not> alternates False [ConsumerPause, ConsumerPause]"
proof -
  have a: "fst (interleave [Call BeforeBatchProcessing, Call BeforeBatchProcessing, Settle 0 True, Settle 0 True]
          (startController (newBackpressureController 1 80)))
     = [ConsumerPause, ConsumerPause, MetricsRecordPause, MetricsRecordPause]"
    by code_simp
  have b: "fst (interleave [Call BeforeBatchProcessing, Settle 0 False, Call AfterBatchProcessing,
                    Call BeforeBatchProcessing]
          (startController (newBackpressureController 1 80)))
     = [ConsumerPause, ConsumerPause]"
    by code_simp
  from a b show ?thesis by simp
qed

section \<open>Properties of the AdaptiveBackpressureController\<close>

lemma adjustConcurrency_maxConcurrency:
  "AdaptiveBackpressureController.maxConcurrency (adjustConcurrency d c) =
     AdaptiveBackpressureController.maxConcurrency c"
  by (simp add: adjustConcurrency_def)

lemma adjustConcurrency_in_range:
  "limit_in_range c \<Longrightarrow> limit_in_range (adjustConcurrency d c)"
  by (cases d) (auto simp: adjustConcurrency_def limit_in_range_def)

lemma adjustments_in_range:
  "limit_in_range c \<Longrightarrow>
     limit_in_range (adjustments ds c) \<and>
     AdaptiveBackpressureController.maxConcurrency (adjustments ds c) =
       AdaptiveBackpressureController.maxConcurrency c"
proof (induction ds arbitrary: c)
  case Nil
  then show ?case by simp
next
  case (Cons d ds)
  from Cons.prems have "limit_in_range (adjustConcurrency d c)"
    by (rule adjustConcurrency_in_range)
  from Cons.IH [OF this] show ?case
    by (simp add: adjustConcurrency_maxConcurrency)
qed

lemma adaptiveAfterBatchProcessing_in_range:
  assumes "limit_in_range c"
  shows "limit_in_range (adaptiveAfterBatchProcessing avg d c) \<and>
     AdaptiveBackpressureController.maxConcurrency (adaptiveAfterBatchProcessing avg d c) =
       AdaptiveBackpressureController.maxConcurrency c"
proof -
  have "limit_in_range (c\<lparr>processingTimeHistory := h\<rparr>)" for h
    using assms by (simp add: limit_in_range_def)
  then show ?thesis
    by (simp add: adaptiveAfterBatchProcessing_def Let_def adjustConcurrency_in_range
        adjustConcurrency_maxConcurrency)
qed

lemma completions_in_range:
  "limit_in_range c \<Longrightarrow>
     limit_in_range (completions avg ds c) \<and>
     AdaptiveBackpressureController.maxConcurrency (completions avg ds c) =
       AdaptiveBackpressureController.maxConcurrency c"
proof (induction ds arbitrary: c)
  case Nil
  then show ?case by simp
next
  case (Cons d ds)
  from adaptiveAfterBatchProcessing_in_range [OF Cons.prems, of avg d]
  have 1: "limit_in_range (adaptiveAfterBatchProcessing avg d c)"
    and 2: "AdaptiveBackpressureController.maxConcurrency (adaptiveAfterBatchProcessing avg d c) =
       AdaptiveBackpressureController.maxConcurrency c" by simp_all
  from Cons.IH [OF 1] 2 show ?case by simp
qed

text \<open>
  Claim C9. Starting from a concurrency limit between 1 and \<open>maxConcurrency\<close>, every
  sequence \<open>ds\<close> of adjustments, and every sequence of completed batches (whatever their
  durations and whatever average is computed from them), leaves the limit between 1 and
  \<open>maxConcurrency\<close>. A decrease sets the limit to \<open>max(1, current - 1)\<close> and the
  threshold to \<open>max(50, threshold - 10)\<close>; an increase sets the limit to
  \<open>min(maxConcurrency, current + 1)\<close> and the threshold to \<open>min(90, threshold + 5)\<close>: the
  threshold goes down by 10 and up by 5, within 50 and 90.
\<close>

theorem adaptive_concurrency_bounds:
  assumes "1 \<le> currentConcurrency c"
    and "currentConcurrency c \<le> AdaptiveBackpressureController.maxConcurrency c"
  shows "1 \<le> currentConcurrency (adjustments ds c) \<and>
         currentConcurrency (adjustments ds c) \<le> AdaptiveBackpressureController.maxConcurrency c \<and>
         1 \<le> currentConcurrency (completions avg durations c) \<and>
         currentConcurrency (completions avg durations c)
           \<le> AdaptiveBackpressureController.maxConcurrency c \<and>
         currentConcurrency (adjustConcurrency Decrease c) = max 1 (currentConcurrency c - 1) \<and>
         currentConcurrency (adjustConcurrency Increase c) =
           min (AdaptiveBackpressureController.maxConcurrency c) (currentConcurrency c + 1) \<and>
         AdaptiveBackpressureController.threshold (adjustConcurrency Decrease c) =
           max 50 (AdaptiveBackpressureController.threshold c - 10) \<and>
         AdaptiveBackpressureController.threshold (adjustConcurrency Increase c) =
           min 90 (AdaptiveBackpressureController.threshold c + 5) \<and>
         (60 \<le> AdaptiveBackpressureController.threshold c \<longrightarrow>
            AdaptiveBackpressureController.threshold (adjustConcurrency Decrease c) =
              AdaptiveBackpressureController.threshold c - 10) \<and>
         (AdaptiveBackpressureController.threshold c \<le> 85 \<longrightarrow>
            AdaptiveBackpressureController.threshold (adjustConcurrency Increase c) =
              AdaptiveBackpressureController.threshold c + 5)"
proof -
  from assms have r: "limit_in_range c" by (simp add: limit_in_range_def)
  from adjustments_in_range [OF r, of ds]
  have a: "1 \<le> currentConcurrency (adjustments ds c) \<and>
         currentConcurrency (adjustments ds c) \<le> AdaptiveBackpressureController.maxConcurrency c"
    by (simp add: limit_in_range_def)
  from completions_in_range [OF r, of avg durations]
  have b: "1 \<le> currentConcurrency (completions avg durations c) \<and>
         currentConcurrency (completions avg durations c)
           \<le> AdaptiveBackpressureController.maxConcurrency c"
    by (simp add: limit_in_range_def)
  have s: "currentConcurrency (adjustConcurrency Decrease c) = max 1 (currentConcurrency c - 1) \<and>
         currentConcurrency (adjustConcurrency Increase c) =
           min (AdaptiveBackpressureController.maxConcurrency c) (currentConcurrency c + 1) \<and>
         AdaptiveBackpressureController.threshold (adjustConcurrency Decrease c) =
           max 50 (AdaptiveBackpressureController.threshold c - 10) \<and>
         AdaptiveBackpressureController.threshold (adjustConcurrency Increase c) =
           min 90 (AdaptiveBackpressureController.threshold c + 5)"
    by (simp add: adjustConcurrency_def)
  from s have t: "(60 \<le> AdaptiveBackpressureController.threshold c \<longrightarrow>
            AdaptiveBackpressureController.threshold (adjustConcurrency Decrease c) =
              AdaptiveBackpressureController.threshold c - 10) \<and>
         (AdaptiveBackpressureController.threshold c \<le> 85 \<longrightarrow>
            AdaptiveBackpressureController.threshold (adjustConcurrency Increase c) =
              AdaptiveBackpressureController.threshold c + 5)"
    by auto
  from a b s t show ?thesis by blast
qed

theorem adaptive_concurrency_bounds_witness:
  "(1::int) \<le> 2 \<and> (2::int) \<le> 3 \<and>
   currentConcurrency (adjustments [Decrease, Decrease, Decrease, Increase, Increase, Increase, Increase]
     \<lparr>processingTimeHistory = [], windowSize = 100, targetLatency = None,
      currentConcurrency = 2, maxConcurrency = 3, threshold = 80\<rparr>) = 3 \<and>
   currentConcurrency (adjustments [Decrease, Decrease, Decrease]
     \<lparr>processingTimeHistory = [], windowSize = 100, targetLatency = None,
      currentConcurrency = 2, maxConcurrency = 3, threshold = 80\<rparr>) = 1 \<and>
   AdaptiveBackpressureController.threshold (adjustConcurrency Decrease
     \<lparr>processingTimeHistory = [], windowSize = 100, targetLatency = None,
      currentConcurrency = 2, maxConcurrency = 3, threshold = 80\<rparr>) = 70 \<and>
   AdaptiveBackpressureController.threshold (adjustConcurrency Increase
     \<lparr>processingTimeHistory = [], windowSize = 100, targetLatency = None,
      currentConcurrency = 2, maxConcurrency = 3, threshold = 80\<rparr>) = 85"
  using adaptive_concurrency_bounds [of
     "\<lparr>processingTimeHistory = [], windowSize = 100, targetLatency = None,
      currentConcurrency = 2, maxConcurrency = 3, threshold = 80\<rparr>"
     "[Decrease, Decrease, Decrease, Increase, Increase, Increase, Increase]"]
  by (simp add: adjustConcurrency_def)

section \<open>Properties of the CircuitBreakerProducer\<close>

lemma consecutiveFailures_snoc:
  "consecutiveFailures (rs @ [r]) =
     (case r of Returned \<Rightarrow> 0 | ThrewCircuitOpen \<Rightarrow> consecutiveFailures rs
      | ThrewSendError \<Rightarrow> Suc (consecutiveFailures rs))"
  by (cases r) (simp_all add: consecutiveFailures_def)

lemma sendStep_counted:
  assumes "circuit_counted s"
  shows "circuit_counted (snd (sendStep y s))"
proof (cases y)
  case (StartSend now ser caught)
  with assms show ?thesis
    by (auto simp: circuit_counted_def send_def catchBlock_def Let_def consecutiveFailures_snoc
        split: if_splits)
next
  case (SettleSend ok caught)
  with assms show ?thesis
    by (auto simp: circuit_counted_def sendSettled_def catchBlock_def Let_def
        consecutiveFailures_snoc split: if_splits)
qed

lemma snd_sendSteps_Cons:
  "snd (sendSteps (y # ys) s) = snd (sendSteps ys (snd (sendStep y s)))"
  by (simp split: prod.splits)

lemma sendSteps_counted:
  "circuit_counted s \<Longrightarrow> circuit_counted (snd (sendSteps ys s))"
proof (induction ys arbitrary: s)
  case Nil
  then show ?case by simp
next
  case (Cons y ys)
  from Cons.prems have "circuit_counted (snd (sendStep y s))" by (rule sendStep_counted)
  from Cons.IH [OF this] show ?case by (simp only: snd_sendSteps_Cons)
qed

lemma sendSteps_append:
  "sendSteps (ys @ zs) s =
     (case sendSteps ys s of (es, s1) \<Rightarrow>
        (case sendSteps zs s1 of (es', s2) \<Rightarrow> (es @ es', s2)))"
  by (induction ys arbitrary: s) (auto split: prod.splits)

lemma snd_sendSteps_append:
  "snd (sendSteps (ys @ zs) s) = snd (sendSteps zs (snd (sendSteps ys s)))"
  by (simp add: sendSteps_append split: prod.splits)

lemma oneSend_consistent:
  assumes "circuit_consistent s" and "circuit_counted s"
  shows "circuit_consistent (snd (sendSteps (oneSend x) s))"
proof -
  obtain now a caught where x: "x = (now, a, caught)" by (cases x)
  from assms show ?thesis unfolding x
    by (cases a; cases "circuitState (producer s)")
      (auto simp: circuit_consistent_def circuit_counted_def send_def sendSettled_def
        catchBlock_def Let_def split: if_splits)
qed

lemma sequentialSends_consistent:
  assumes "circuit_consistent s" and "circuit_counted s"
  shows "circuit_consistent (snd (sendSteps (sequentialSends xs) s))"
  using assms
proof (induction xs arbitrary: s)
  case Nil
  then show ?case by (simp add: sequentialSends_def)
next
  case (Cons x xs)
  have 1: "circuit_consistent (snd (sendSteps (oneSend x) s))"
    using Cons.prems by (rule oneSend_consistent)
  have 2: "circuit_counted (snd (sendSteps (oneSend x) s))"
    using Cons.prems(2) by (rule sendSteps_counted)
  have "sequentialSends (x # xs) = oneSend x @ sequentialSends xs"
    by (simp add: sequentialSends_def)
  with Cons.IH [OF 1 2] show ?case by (simp only: snd_sendSteps_append)
qed

lemma start_counted: "circuit_counted (startProducer newCircuitBreakerProducer)"
  by (simp add: circuit_counted_def startProducer_def newCircuitBreakerProducer_def
      consecutiveFailures_def)

lemma start_consistent: "circuit_consistent (startProducer newCircuitBreakerProducer)"
  by (simp add: circuit_consistent_def startProducer_def newCircuitBreakerProducer_def)

text \<open>
  Claim C6, as amended. \<open>s\<close> is the producer with its calls after any interleaving \<open>ys\<close>
  of \<^verbatim>\<open>send\<close> calls on a new object; \<open>q\<close> is the same after any sequence \<open>xs\<close> of calls
  that do not overlap, and \<open>cb\<close> the object then.
  \<^item> In \<open>s\<close>, the failure count is the number of consecutive send failures (the failed
    sends since the last send that returned), which is below \<open>failureThreshold\<close> (5)
    while the circuit is closed; a step leaves a closed circuit closed, unless it is
    the failure of a send that brings the consecutive failures to \<open>failureThreshold\<close>:
    that one opens it.
  \<^item> In \<open>s\<close>, while the circuit is open and less than \<open>resetTimeout\<close> has passed since the
    last failure, \<^verbatim>\<open>send\<close> throws without calling \<^verbatim>\<open>producer.send\<close> and changes
    nothing.
  \<^item> In \<open>q\<close> no call is suspended and the circuit is not half-open. When it is open and
    \<open>resetTimeout\<close> has passed, the next \<^verbatim>\<open>send\<close> is the trial: it makes the circuit
    half-open and calls \<^verbatim>\<open>producer.send\<close> once; if that is fulfilled, the circuit is
    closed and the count is zero; if it is rejected, or if \<^verbatim>\<open>JSON.stringify\<close> throws
    before the call, the circuit is open again with the failure time renewed, so that a
    further \<^verbatim>\<open>send\<close> within \<open>resetTimeout\<close> of it throws without a network call.
\<close>

theorem circuit_breaker_transitions:
  assumes "s = snd (sendSteps ys (startProducer newCircuitBreakerProducer))"
    and "q = snd (sendSteps (sequentialSends xs) (startProducer newCircuitBreakerProducer))"
    and "cb = producer q"
  shows "failureCount (producer s) = int (consecutiveFailures (results s)) \<and>
         failureThreshold (producer s) = 5 \<and> resetTimeout (producer s) = 60000 \<and>
         (circuitState (producer s) = CLOSED \<longrightarrow> consecutiveFailures (results s) < 5) \<and>
         (circuitState (producer s) = CLOSED
          \<longrightarrow> circuitState (producer (snd (sendStep y s)))
                = (if results (snd (sendStep y s)) = results s @ [ThrewSendError]
                      \<and> consecutiveFailures (results s) + 1 = 5
                   then OPEN else CLOSED)) \<and>
         (circuitState (producer s) = OPEN \<and>
          now - lastFailureTime (producer s) < resetTimeout (producer s)
          \<longrightarrow> send now serialisable caught (producer s) = ([], Some ThrewCircuitOpen, producer s)) \<and>
         inFlight q = 0 \<and> circuitState cb \<noteq> HALF_OPEN \<and>
         (circuitState cb = OPEN \<and> \<not> now - lastFailureTime cb < resetTimeout cb
          \<longrightarrow> send now True caught cb = ([ProducerSend], None, cb\<lparr>circuitState := HALF_OPEN\<rparr>) \<and>
              sendSettled True caught' (cb\<lparr>circuitState := HALF_OPEN\<rparr>)
                = ([], Returned, cb\<lparr>circuitState := CLOSED, failureCount := 0\<rparr>) \<and>
              sendSettled False caught' (cb\<lparr>circuitState := HALF_OPEN\<rparr>)
                = ([MetricsRecordCircuitOpen], ThrewSendError,
                   cb\<lparr>circuitState := OPEN, failureCount := failureCount cb + 1,
                      lastFailureTime := caught'\<rparr>) \<and>
              send now False caught cb
                = ([MetricsRecordCircuitOpen], Some ThrewSendError,
                   cb\<lparr>circuitState := OPEN, failureCount := failureCount cb + 1,
                      lastFailureTime := caught\<rparr>) \<and>
              (now' - caught' < resetTimeout cb
               \<longrightarrow> send now' serialisable caught''
                     (cb\<lparr>circuitState := OPEN, failureCount := failureCount cb + 1,
                         lastFailureTime := caught'\<rparr>)
                   = ([], Some ThrewCircuitOpen,
                      cb\<lparr>circuitState := OPEN, failureCount := failureCount cb + 1,
                         lastFailureTime := caught'\<rparr>)))"
proof -
  have cs: "circuit_counted s"
    unfolding assms(1) using start_counted by (rule sendSteps_counted)
  have cq: "circuit_counted q"
    unfolding assms(2) using start_counted by (rule sendSteps_counted)
  have kq: "circuit_consistent q"
    unfolding assms(2) using start_consistent start_counted by (rule sequentialSends_consistent)
  from cs have 1: "failureCount (producer s) = int (consecutiveFailures (results s))"
    and 2: "failureThreshold (producer s) = 5" "resetTimeout (producer s) = 60000"
    and 3: "circuitState (producer s) = CLOSED \<longrightarrow> consecutiveFailures (results s) < 5"
    by (auto simp: circuit_counted_def)
  have 4: "circuitState (producer s) = CLOSED
          \<longrightarrow> circuitState (producer (snd (sendStep y s)))
                = (if results (snd (sendStep y s)) = results s @ [ThrewSendError]
                      \<and> consecutiveFailures (results s) + 1 = 5
                   then OPEN else CLOSED)"
  proof (cases y)
    case (StartSend n b c)
    then show ?thesis using 1 2 3
      by (cases b) (auto simp: send_def catchBlock_def Let_def)
  next
    case (SettleSend b c)
    then show ?thesis using 1 2 3
      by (cases b) (auto simp: sendSettled_def catchBlock_def Let_def)
  qed
  have 6: "circuitState (producer s) = OPEN \<and>
          now - lastFailureTime (producer s) < resetTimeout (producer s)
          \<longrightarrow> send now serialisable caught (producer s) = ([], Some ThrewCircuitOpen, producer s)"
    by (simp add: send_def)
  from kq have 7: "inFlight q = 0" "circuitState cb \<noteq> HALF_OPEN"
    unfolding assms(3) by (auto simp: circuit_consistent_def)
  from kq cq have th: "circuitState cb = OPEN \<longrightarrow> failureThreshold cb \<le> failureCount cb"
    unfolding assms(3) by (auto simp: circuit_consistent_def)
  have 8: "circuitState cb = OPEN \<and> \<not> now - lastFailureTime cb < resetTimeout cb
          \<longrightarrow> send now True caught cb = ([ProducerSend], None, cb\<lparr>circuitState := HALF_OPEN\<rparr>) \<and>
              sendSettled True caught' (cb\<lparr>circuitState := HALF_OPEN\<rparr>)
                = ([], Returned, cb\<lparr>circuitState := CLOSED, failureCount := 0\<rparr>) \<and>
              sendSettled False caught' (cb\<lparr>circuitState := HALF_OPEN\<rparr>)
                = ([MetricsRecordCircuitOpen], ThrewSendError,
                   cb\<lparr>circuitState := OPEN, failureCount := failureCount cb + 1,
                      lastFailureTime := caught'\<rparr>) \<and>
              send now False caught cb
                = ([MetricsRecordCircuitOpen], Some ThrewSendError,
                   cb\<lparr>circuitState := OPEN, failureCount := failureCount cb + 1,
                      lastFailureTime := caught\<rparr>) \<and>
              (now' - caught' < resetTimeout cb
               \<longrightarrow> send now' serialisable caught''
                     (cb\<lparr>circuitState := OPEN, failureCount := failureCount cb + 1,
                         lastFailureTime := caught'\<rparr>)
                   = ([], Some ThrewCircuitOpen,
                      cb\<lparr>circuitState := OPEN, failureCount := failureCount cb + 1,
                         lastFailureTime := caught'\<rparr>))"
    using th by (auto simp: send_def sendSettled_def catchBlock_def Let_def)
  from 1 2 3 4 6 7 8 show ?thesis by blast
qed

theorem circuit_breaker_transitions_witness:
  "snd (sendSteps (sequentialSends [(1000, Rejects, 1001), (2000, Rejects, 2001),
          (3000, StringifyThrows, 3001), (4000, Rejects, 4001)])
        (startProducer newCircuitBreakerProducer))
     = \<lparr>producer = \<lparr>failureCount = 4, failureThreshold = 5, circuitState = CLOSED,
                      lastFailureTime = 4001, resetTimeout = 60000\<rparr>,
        inFlight = 0,
        results = [ThrewSendError, ThrewSendError, ThrewSendError, ThrewSendError]\<rparr> \<and>
   consecutiveFailures [ThrewSendError, ThrewSendError, ThrewSendError, ThrewSendError] = 4 \<and>
   circuitState (producer (snd (sendStep (StartSend 5000 False 5001)
        \<lparr>producer = \<lparr>failureCount = 4, failureThreshold = 5, circuitState = CLOSED,
                      lastFailureTime = 4001, resetTimeout = 60000\<rparr>,
         inFlight = 0,
         results = [ThrewSendError, ThrewSendError, ThrewSendError, ThrewSendError]\<rparr>))) = OPEN \<and>
   snd (sendSteps (sequentialSends [(1000, Rejects, 1001), (2000, Rejects, 2001),
          (3000, StringifyThrows, 3001), (4000, Rejects, 4001), (4500, Resolves, 4501)])
        (startProducer newCircuitBreakerProducer))
     = \<lparr>producer = \<lparr>failureCount = 0, failureThreshold = 5, circuitState = CLOSED,
                      lastFailureTime = 4001, resetTimeout = 60000\<rparr>,
        inFlight = 0,
        results = [ThrewSendError, ThrewSendError, ThrewSendError, ThrewSendError, Returned]\<rparr> \<and>
   circuitState (producer (snd (sendStep (StartSend 5000 False 5001)
        \<lparr>producer = \<lparr>failureCount = 0, failureThreshold = 5, circuitState = CLOSED,
                      lastFailureTime = 4001, resetTimeout = 60000\<rparr>,
         inFlight = 0,
         results = [ThrewSendError, ThrewSendError, ThrewSendError, ThrewSendError, Returned]\<rparr>)))
     = CLOSED \<and>
   snd (sendSteps (sequentialSends [(1000, Rejects, 1001), (2000, Rejects, 2001),
          (3000, StringifyThrows, 3001), (4000, Rejects, 4001), (5000, Rejects, 5001)])
        (startProducer newCircuitBreakerProducer))
     = \<lparr>producer = \<lparr>failureCount = 5, failureThreshold = 5, circuitState = OPEN,
                      lastFailureTime = 5001, resetTimeout = 60000\<rparr>,
        inFlight = 0,
        results = [ThrewSendError, ThrewSendError, ThrewSendError, ThrewSendError, ThrewSendError]\<rparr> \<and>
   send 6000 True 6001
       \<lparr>failureCount = 5, failureThreshold = 5, circuitState = OPEN,
        lastFailureTime = 5001, resetTimeout = 60000\<rparr>
     = ([], Some ThrewCircuitOpen,
        \<lparr>failureCount = 5, failureThreshold = 5, circuitState = OPEN,
         lastFailureTime = 5001, resetTimeout = 60000\<rparr>) \<and>
   send 65001 True 65002
       \<lparr>failureCount = 5, failureThreshold = 5, circuitState = OPEN,
        lastFailureTime = 5001, resetTimeout = 60000\<rparr>
     = ([ProducerSend], None,
        \<lparr>failureCount = 5, failureThreshold = 5, circuitState = HALF_OPEN,
         lastFailureTime = 5001, resetTimeout = 60000\<rparr>) \<and>
   sendSettled True 65003
       \<lparr>failureCount = 5, failureThreshold = 5, circuitState = HALF_OPEN,
        lastFailureTime = 5001, resetTimeout = 60000\<rparr>
     = ([], Returned,
        \<lparr>failureCount = 0, failureThreshold = 5, circuitState = CLOSED,
         lastFailureTime = 5001, resetTimeout = 60000\<rparr>) \<and>
   sendSettled False 65003
       \<lparr>failureCount = 5, failureThreshold = 5, circuitState = HALF_OPEN,
        lastFailureTime = 5001, resetTimeout = 60000\<rparr>
     = ([MetricsRecordCircuitOpen], ThrewSendError,
        \<lparr>failureCount = 6, failureThreshold = 5, circuitState = OPEN,
         lastFailureTime = 65003, resetTimeout = 60000\<rparr>) \<and>
   send 70000 True 70001
       \<lparr>failureCount = 6, failureThreshold = 5, circuitState = OPEN,
        lastFailureTime = 65003, resetTimeout = 60000\<rparr>
     = ([], Some ThrewCircuitOpen,
        \<lparr>failureCount = 6, failureThreshold = 5, circuitState = OPEN,
         lastFailureTime = 65003, resetTimeout = 60000\<rparr>)"
proof -
  let ?four = "sequentialSends [(1000, Rejects, 1001), (2000, Rejects, 2001),
          (3000, StringifyThrows, 3001), (4000, Rejects, 4001)]"
  let ?reset = "sequentialSends [(1000, Rejects, 1001), (2000, Rejects, 2001),
          (3000, StringifyThrows, 3001), (4000, Rejects, 4001), (4500, Resolves, 4501)]"
  let ?five = "[(1000, Rejects, 1001), (2000, Rejects, 2001),
          (3000, StringifyThrows, 3001), (4000, Rejects, 4001), (5000, Rejects, 5001)]"
  let ?s4 = "\<lparr>producer = \<lparr>failureCount = 4, failureThreshold = 5, circuitState = CLOSED,
                      lastFailureTime = 4001, resetTimeout = 60000\<rparr>,
        inFlight = 0,
        results = [ThrewSendError, ThrewSendError, ThrewSendError, ThrewSendError]\<rparr>"
  let ?s0 = "\<lparr>producer = \<lparr>failureCount = 0, failureThreshold = 5, circuitState = CLOSED,
                      lastFailureTime = 4001, resetTimeout = 60000\<rparr>,
        inFlight = 0,
        results = [ThrewSendError, ThrewSendError, ThrewSendError, ThrewSendError, Returned]\<rparr>"
  let ?cb = "\<lparr>failureCount = 5, failureThreshold = 5, circuitState = OPEN,
                      lastFailureTime = 5001, resetTimeout = 60000\<rparr>"
  let ?s5 = "\<lparr>producer = ?cb, inFlight = 0,
        results = [ThrewSendError, ThrewSendError, ThrewSendError, ThrewSendError, ThrewSendError]\<rparr>"
  have four: "snd (sendSteps ?four (startProducer newCircuitBreakerProducer)) = ?s4" by code_simp
  have reset: "snd (sendSteps ?reset (startProducer newCircuitBreakerProducer)) = ?s0" by code_simp
  have five: "snd (sendSteps (sequentialSends ?five) (startProducer newCircuitBreakerProducer)) = ?s5"
    by code_simp
  have c4: "consecutiveFailures [ThrewSendError, ThrewSendError, ThrewSendError, ThrewSendError] = 4"
    by code_simp
  have c0: "consecutiveFailures [ThrewSendError, ThrewSendError, ThrewSendError, ThrewSendError, Returned] = 0"
    by code_simp
  have r4: "results (snd (sendStep (StartSend 5000 False 5001) ?s4)) = results ?s4 @ [ThrewSendError]"
    by code_simp
  note a = circuit_breaker_transitions [OF four [symmetric] five [symmetric],
      where cb = ?cb and y = "StartSend 5000 False 5001" and now = 6000 and serialisable = True
        and caught = 6001]
  note b = circuit_breaker_transitions [OF reset [symmetric] five [symmetric],
      where cb = ?cb and y = "StartSend 5000 False 5001" and now = 65001
        and caught = 65002 and caught' = 65003 and now' = 70000 and serialisable = True
        and caught'' = 70001]
  from a r4 c4 have 1: "circuitState (producer (snd (sendStep (StartSend 5000 False 5001) ?s4))) = OPEN"
    by (simp add: send_def catchBlock_def Let_def)
  from b c0 have 2: "circuitState (producer (snd (sendStep (StartSend 5000 False 5001) ?s0))) = CLOSED"
    by (simp add: send_def catchBlock_def Let_def)
  note c = circuit_breaker_transitions [OF five [symmetric] five [symmetric],
      where cb = ?cb and y = "StartSend 5000 False 5001" and now = 6000 and serialisable = True
        and caught = 6001]
  from c have 3: "send 6000 True 6001 ?cb = ([], Some ThrewCircuitOpen, ?cb)" by simp
  from b have 4: "send 65001 True 65002 ?cb = ([ProducerSend], None, ?cb\<lparr>circuitState := HALF_OPEN\<rparr>)"
    and 5: "sendSettled True 65003 (?cb\<lparr>circuitState := HALF_OPEN\<rparr>)
                = ([], Returned, ?cb\<lparr>circuitState := CLOSED, failureCount := 0\<rparr>)"
    and 6: "sendSettled False 65003 (?cb\<lparr>circuitState := HALF_OPEN\<rparr>)
                = ([MetricsRecordCircuitOpen], ThrewSendError,
                   ?cb\<lparr>circuitState := OPEN, failureCount := failureCount ?cb + 1,
                      lastFailureTime := 65003\<rparr>)"
    and 7: "send 70000 True 70001
                     (?cb\<lparr>circuitState := OPEN, failureCount := failureCount ?cb + 1,
                         lastFailureTime := 65003\<rparr>)
                   = ([], Some ThrewCircuitOpen,
                      ?cb\<lparr>circuitState := OPEN, failureCount := failureCount ?cb + 1,
                         lastFailureTime := 65003\<rparr>)"
    by simp_all
  from four c4 1 reset 2 five 3 4 5 6 7 show ?thesis by simp
qed

text \<open>
  Claim C6 as stated permits exactly one trial send once \<open>resetTimeout\<close> has passed.
  After five failed sends have opened the circuit at time 5001, two \<^verbatim>\<open>send\<close> calls
  started at 65001 and 65002, the second one while the first awaits \<^verbatim>\<open>producer.send\<close>,
  both call \<^verbatim>\<open>producer.send\<close>: the second finds the circuit half-open, which no check
  refuses. And when a send started before the failures is fulfilled while the circuit
  is open, the count is reset; the trial that fails after that counts one failure and
  leaves the circuit half-open.
\<close>

theorem circuit_breaker_trial_counterexample:
  "sendSteps (sequentialSends [(1000, Rejects, 1001), (2000, Rejects, 2001),
                (3000, StringifyThrows, 3001), (4000, Rejects, 4001), (5000, Rejects, 5001)]
              @ [StartSend 65001 True 65001, StartSend 65002 True 65002])
      (startProducer newCircuitBreakerProducer)
     = ([ProducerSend, ProducerSend, ProducerSend, ProducerSend, MetricsRecordCircuitOpen,
         ProducerSend, ProducerSend],
        \<lparr>producer = \<lparr>failureCount = 5, failureThreshold = 5, circuitState = HALF_OPEN,
                       lastFailureTime = 5001, resetTimeout = 60000\<rparr>,
         inFlight = 2,
         results = [ThrewSendError, ThrewSendError, ThrewSendError, ThrewSendError,
                    ThrewSendError]\<rparr>) \<and>
   snd (sendSteps ([StartSend 500 True 500]
              @ sequentialSends [(1000, Rejects, 1001), (2000, Rejects, 2001),
                  (3000, StringifyThrows, 3001), (4000, Rejects, 4001), (5000, Rejects, 5001)]
              @ [SettleSend True 6000, StartSend 65001 True 65001, SettleSend False 65002])
      (startProducer newCircuitBreakerProducer))
     = \<lparr>producer = \<lparr>failureCount = 1, failureThreshold = 5, circuitState = HALF_OPEN,
                      lastFailureTime = 65002, resetTimeout = 60000\<rparr>,
        inFlight = 0,
        results = [ThrewSendError, ThrewSendError, ThrewSendError, ThrewSendError,
                   ThrewSendError, Returned, ThrewSendError]\<rparr>"
  by code_simp

section \<open>Properties of the Failure Router\<close>

lemma processMessage_not_retryable:
  assumes "\<not> shouldRetry cfg err msg attempt" and "handler attempt = Some err"
  shows "processMessage cfg handler msg attempt =
     [HandlerInvoked attempt,
      DeadLettered \<lparr>originalMessage = msg, failureReason = err, attemptCount = attempt\<rparr>]"
  using assms by (simp add: processMessage.simps [of cfg handler msg attempt] route_def)

lemma processMessage_always_retryable:
  assumes "\<And>a. shouldRetry cfg err msg a" and "attempt \<le> maxRetries cfg"
  shows "processMessage cfg (\<lambda>a. Some err) msg attempt =
     concat (map (\<lambda>a. [HandlerInvoked a, RetryScheduled a (backoff cfg a)])
               [attempt..<maxRetries cfg])
     @ [HandlerInvoked (maxRetries cfg),
        DeadLettered \<lparr>originalMessage = msg, failureReason = err,
                      attemptCount = maxRetries cfg\<rparr>]"
  using assms(2)
proof (induction "maxRetries cfg - attempt" arbitrary: attempt)
  case 0
  then have eq: "attempt = maxRetries cfg" by simp
  have "processMessage cfg (\<lambda>a. Some err) msg (maxRetries cfg) =
      [HandlerInvoked (maxRetries cfg),
        DeadLettered \<lparr>originalMessage = msg, failureReason = err,
                      attemptCount = maxRetries cfg\<rparr>]"
    by (subst processMessage.simps) (simp add: route_def)
  then show ?case unfolding eq by simp
next
  case (Suc n)
  then have lt: "attempt < maxRetries cfg" and n: "n = maxRetries cfg - Suc attempt"
    and le: "Suc attempt \<le> maxRetries cfg" by simp_all
  from lt have up: "[attempt..<maxRetries cfg] = attempt # [Suc attempt..<maxRetries cfg]"
    by (simp add: upt_conv_Cons)
  have "processMessage cfg (\<lambda>a. Some err) msg attempt =
      HandlerInvoked attempt # RetryScheduled attempt (backoff cfg attempt)
        # processMessage cfg (\<lambda>a. Some err) msg (Suc attempt)"
    using lt assms(1) by (subst processMessage.simps) (simp add: route_def)
  with Suc.hyps(1) [OF n le] show ?case unfolding up by simp
qed

text \<open>
  Claim C5. The router uses either of the two documented \<open>shouldRetry\<close> policies. \<open>v\<close> is
  a validation error and \<open>t\<close> a transient error, as the policies recognise them. A
  handler that always raises \<open>v\<close> is invoked once and the message is dead-lettered with
  no retry. A handler that always raises \<open>t\<close> is invoked, and a retry scheduled,
  \<open>maxRetries\<close> times; then it is invoked once more and the message is dead-lettered with
  the failure reason \<open>t\<close> and the retry count \<open>maxRetries\<close>. In both cases the message's
  life ends with the dead letter.
\<close>

theorem dlq_termination:
  assumes "shouldRetry cfg = ordersShouldRetry \<or> shouldRetry cfg = paymentsShouldRetry"
    and "name v = ''ValidationError''" and "code v = Some ''VALIDATION_ERROR''"
    and "name t = ''TransientError''" and "code t = Some ''TEMPORARY_ERROR''"
  shows "processMessage cfg (\<lambda>attempt. Some v) msg 0 =
           [HandlerInvoked 0,
            DeadLettered \<lparr>originalMessage = msg, failureReason = v, attemptCount = 0\<rparr>] \<and>
         processMessage cfg (\<lambda>attempt. Some t) msg 0 =
           concat (map (\<lambda>a. [HandlerInvoked a, RetryScheduled a (backoff cfg a)])
                     [0..<maxRetries cfg])
           @ [HandlerInvoked (maxRetries cfg),
              DeadLettered \<lparr>originalMessage = msg, failureReason = t,
                            attemptCount = maxRetries cfg\<rparr>] \<and>
         length (filter (\<lambda>e. \<exists>a. e = HandlerInvoked a)
                   (processMessage cfg (\<lambda>attempt. Some v) msg 0)) = 1 \<and>
         length (filter (\<lambda>e. \<exists>a d. e = RetryScheduled a d)
                   (processMessage cfg (\<lambda>attempt. Some t) msg 0)) = maxRetries cfg"
proof -
  from assms(1,2,3) have nv: "\<not> shouldRetry cfg v msg 0"
    by (auto simp: ordersShouldRetry_def paymentsShouldRetry_def)
  from assms(1,4,5) have yt: "\<And>a. shouldRetry cfg t msg a"
    by (auto simp: ordersShouldRetry_def paymentsShouldRetry_def)
  have pv: "processMessage cfg (\<lambda>attempt. Some v) msg 0 =
           [HandlerInvoked 0,
            DeadLettered \<lparr>originalMessage = msg, failureReason = v, attemptCount = 0\<rparr>]"
    using nv by (rule processMessage_not_retryable) simp
  have pt: "processMessage cfg (\<lambda>attempt. Some t) msg 0 =
           concat (map (\<lambda>a. [HandlerInvoked a, RetryScheduled a (backoff cfg a)])
                     [0..<maxRetries cfg])
           @ [HandlerInvoked (maxRetries cfg),
              DeadLettered \<lparr>originalMessage = msg, failureReason = t,
                            attemptCount = maxRetries cfg\<rparr>]"
    using yt by (rule processMessage_always_retryable) simp
  have cnt: "length (filter (\<lambda>e. \<exists>a d. e = RetryScheduled a d)
       (concat (map (\<lambda>a. [HandlerInvoked a, RetryScheduled a (f a)]) xs))) = length xs"
    for f :: "nat \<Rightarrow> int" and xs
    by (induction xs) simp_all
  show ?thesis unfolding pt unfolding pv by (simp add: cnt)
qed

theorem dlq_termination_witness:
  "processMessage
     \<lparr>maxRetries = 3, retryBackoffBase = 1000, retryBackoffMax = 30000,
      shouldRetry = ordersShouldRetry\<rparr>
     (\<lambda>attempt. Some \<lparr>name = ''ValidationError'', code = Some ''VALIDATION_ERROR''\<rparr>)
     ''order-1'' 0
   = [HandlerInvoked 0,
      DeadLettered \<lparr>originalMessage = ''order-1'',
        failureReason = \<lparr>name = ''ValidationError'', code = Some ''VALIDATION_ERROR''\<rparr>,
        attemptCount = 0\<rparr>] \<and>
   processMessage
     \<lparr>maxRetries = 3, retryBackoffBase = 1000, retryBackoffMax = 30000,
      shouldRetry = ordersShouldRetry\<rparr>
     (\<lambda>attempt. Some \<lparr>name = ''TransientError'', code = Some ''TEMPORARY_ERROR''\<rparr>)
     ''order-1'' 0
   = [HandlerInvoked 0, RetryScheduled 0 1000,
      HandlerInvoked 1, RetryScheduled 1 2000,
      HandlerInvoked 2, RetryScheduled 2 4000,
      HandlerInvoked 3,
      DeadLettered \<lparr>originalMessage = ''order-1'',
        failureReason = \<lparr>name = ''TransientError'', code = Some ''TEMPORARY_ERROR''\<rparr>,
        attemptCount = 3\<rparr>]"
proof -
  have u: "[0..<3] = [0, Suc 0, Suc (Suc 0)]" by (simp add: upt_conv_Cons)
  from dlq_termination [where cfg = "\<lparr>maxRetries = 3, retryBackoffBase = 1000,
        retryBackoffMax = 30000, shouldRetry = ordersShouldRetry\<rparr>"
      and v = "\<lparr>name = ''ValidationError'', code = Some ''VALIDATION_ERROR''\<rparr>"
      and t = "\<lparr>name = ''TransientError'', code = Some ''TEMPORARY_ERROR''\<rparr>"
      and msg = "''order-1''"]
  show ?thesis by (simp add: backoff_def u)
qed

text \<open>
  Claim C7. The documented \<^verbatim>\<open>retryDelay\<close> function is the exponential backoff of the
  specification with the base 1000 and the cap 30000: \<open>min(1000 \<times> 2^attempt, 30000)\<close>
  milliseconds, which is \<open>1000 \<times> 2^attempt\<close> up to attempt 4 and 30000 from attempt 5 on.
  When the router classifies a failure as retryable and \<open>attempt < maxRetries\<close>, it
  schedules the retry after \<open>min(base \<times> 2^attempt, maxBackoff)\<close>, which with that base
  and that cap is \<^verbatim>\<open>retryDelay(attempt)\<close>.
\<close>

theorem retry_backoff:
  assumes "shouldRetry cfg err msg attempt" and "attempt < maxRetries cfg"
  shows "retryDelay attempt = min (1000 * 2 ^ attempt) 30000 \<and>
         (attempt \<le> 4 \<longrightarrow> retryDelay attempt = 1000 * 2 ^ attempt) \<and>
         (5 \<le> attempt \<longrightarrow> retryDelay attempt = 30000) \<and>
         route cfg msg err attempt
           = ScheduleRetry (min (retryBackoffBase cfg * 2 ^ attempt) (retryBackoffMax cfg)) \<and>
         (retryBackoffBase cfg = 1000 \<and> retryBackoffMax cfg = 30000 \<longrightarrow>
            backoff cfg attempt = retryDelay attempt \<and>
            route cfg msg err attempt = ScheduleRetry (retryDelay attempt))"
proof -
  have small: "retryDelay attempt = 1000 * 2 ^ attempt" if "attempt \<le> 4"
  proof -
    from that have "(2::int) ^ attempt \<le> 2 ^ 4" by (intro power_increasing) simp_all
    then show ?thesis by (simp add: retryDelay_def)
  qed
  have large: "retryDelay attempt = 30000" if "5 \<le> attempt"
  proof -
    from that have "(2::int) ^ 5 \<le> 2 ^ attempt" by (intro power_increasing) simp_all
    then show ?thesis by (simp add: retryDelay_def)
  qed
  from small large assms show ?thesis
    by (simp add: route_def backoff_def retryDelay_def)
qed

theorem retry_backoff_witness:
  "paymentsShouldRetry \<lparr>name = ''Error'', code = Some ''TEMPORARY_ERROR''\<rparr> ''payment-7'' 2 \<and>
   (2::nat) < 5 \<and>
   route \<lparr>maxRetries = 5, retryBackoffBase = 1000, retryBackoffMax = 30000,
          shouldRetry = paymentsShouldRetry\<rparr>
     ''payment-7'' \<lparr>name = ''Error'', code = Some ''TEMPORARY_ERROR''\<rparr> 2
     = ScheduleRetry 4000 \<and>
   retryDelay 2 = 4000 \<and>
   route \<lparr>maxRetries = 9, retryBackoffBase = 1000, retryBackoffMax = 30000,
          shouldRetry = paymentsShouldRetry\<rparr>
     ''payment-7'' \<lparr>name = ''Error'', code = Some ''TEMPORARY_ERROR''\<rparr> 5
     = ScheduleRetry 30000 \<and>
   retryDelay 5 = 30000"
  using retry_backoff [where cfg = "\<lparr>maxRetries = 5, retryBackoffBase = 1000,
        retryBackoffMax = 30000, shouldRetry = paymentsShouldRetry\<rparr>"
      and err = "\<lparr>name = ''Error'', code = Some ''TEMPORARY_ERROR''\<rparr>"
      and msg = "''payment-7''" and attempt = 2]
    retry_backoff [where cfg = "\<lparr>maxRetries = 9, retryBackoffBase = 1000,
        retryBackoffMax = 30000, shouldRetry = paymentsShouldRetry\<rparr>"
      and err = "\<lparr>name = ''Error'', code = Some ''TEMPORARY_ERROR''\<rparr>"
      and msg = "''payment-7''" and attempt = 5]
  by (simp add: paymentsShouldRetry_def retryDelay_def)

section \<open>Properties of the Idempotency Filter\<close>

lemma intake_fixed:
  "ttl (intake e f) = ttl f \<and> idempotencyKey (intake e f) = idempotencyKey f"
  by (cases e) (auto simp: shouldProcess_def split: option.splits bool.splits prod.splits)

lemma intake_within_ttl:
  assumes "entries f k = Some x" and "event_time e < x"
  shows "entries (intake e f) k = Some x \<and>
         filter (\<lambda>m. idempotencyKey f m = k) (handled (intake e f))
           = filter (\<lambda>m. idempotencyKey f m = k) (handled f)"
proof (cases e)
  case (Deliver now msg)
  show ?thesis
  proof (cases "idempotencyKey f msg = k")
    case True
    with assms Deliver show ?thesis by (simp add: shouldProcess_def)
  next
    case False
    with assms Deliver show ?thesis
      by (auto simp: shouldProcess_def split: option.splits bool.splits prod.splits if_splits)
  qed
next
  case (Sweep now)
  with assms show ?thesis by (simp add: sweep_def)
qed

lemma intakes_within_ttl:
  assumes "entries f k = Some x" and "\<forall>e \<in> set evs. event_time e < x"
  shows "filter (\<lambda>m. idempotencyKey f m = k) (handled (intakes evs f))
           = filter (\<lambda>m. idempotencyKey f m = k) (handled f)"
  using assms
proof (induction evs arbitrary: f)
  case Nil
  show ?case by simp
next
  case (Cons e evs)
  from Cons.prems have t: "event_time e < x" and rest: "\<forall>e \<in> set evs. event_time e < x"
    by simp_all
  from intake_within_ttl [OF Cons.prems(1) t]
  have 1: "entries (intake e f) k = Some x"
    and 2: "filter (\<lambda>m. idempotencyKey f m = k) (handled (intake e f))
           = filter (\<lambda>m. idempotencyKey f m = k) (handled f)" by simp_all
  from Cons.IH [OF 1 rest] 2 show ?case by (simp add: intake_fixed)
qed

text \<open>
  Claim C2. A message \<open>msg\<close> with key \<open>k\<close> is delivered at time \<open>t0\<close>, when the filter has
  no entry for \<open>k\<close> or an expired one; then any events \<open>evs\<close> follow (deliveries of
  messages with this or other keys, sweeps), all before \<open>t0 + ttl\<close>. The first
  \<open>shouldProcess\<close> returns true and inserts \<open>{k, t0 + ttl}\<close>; among all these deliveries
  the handler is invoked for key \<open>k\<close> exactly once, for \<open>msg\<close>; every later delivery of a
  message with key \<open>k\<close> gets false from \<open>shouldProcess\<close>, which leaves the entries as
  they are.
\<close>

theorem idempotent_within_ttl:
  assumes "entries f k = None \<or> (\<exists>x. entries f k = Some x \<and> x \<le> t0)"
    and "idempotencyKey f msg = k"
    and "\<forall>e \<in> set evs. event_time e < t0 + ttl f"
  shows "shouldProcess (ttl f) t0 k (entries f) = (True, (entries f)(k \<mapsto> t0 + ttl f)) \<and>
         filter (\<lambda>m. idempotencyKey f m = k) (handled (intakes (Deliver t0 msg # evs) f))
           = filter (\<lambda>m. idempotencyKey f m = k) (handled f) @ [msg] \<and>
         (\<forall>i < length evs. \<forall>now m. evs ! i = Deliver now m \<and> idempotencyKey f m = k \<longrightarrow>
            shouldProcess (ttl f) now k (entries (intakes (Deliver t0 msg # take i evs) f))
              = (False, entries (intakes (Deliver t0 msg # take i evs) f)))"
proof -
  let ?f = "intake (Deliver t0 msg) f"
  from assms(1) have first: "shouldProcess (ttl f) t0 k (entries f)
      = (True, (entries f)(k \<mapsto> t0 + ttl f))"
    by (auto simp: shouldProcess_def)
  with assms(2) have f1: "?f = f\<lparr>entries := (entries f)(k \<mapsto> t0 + ttl f),
      handled := handled f @ [msg]\<rparr>" by simp
  then have e1: "entries ?f k = Some (t0 + ttl f)" and k1: "idempotencyKey ?f = idempotencyKey f"
    and h1: "handled ?f = handled f @ [msg]" by simp_all
  from intakes_within_ttl [OF e1 assms(3)] assms(2)
  have once: "filter (\<lambda>m. idempotencyKey f m = k) (handled (intakes (Deliver t0 msg # evs) f))
           = filter (\<lambda>m. idempotencyKey f m = k) (handled f) @ [msg]"
    unfolding k1 h1 by simp
  have later: "shouldProcess (ttl f) now k (entries (intakes (Deliver t0 msg # take i evs) f))
              = (False, entries (intakes (Deliver t0 msg # take i evs) f))"
    if i: "i < length evs" and ev: "evs ! i = Deliver now m" for i now m
  proof -
    have stays: "entries (intakes ys g) k = Some x"
      if "entries g k = Some x" and "\<forall>e \<in> set ys. event_time e < x" for ys x
        and g :: "('a, 'b) IdempotencyFilter"
      using that
    proof (induction ys arbitrary: g)
      case Nil
      then show ?case by simp
    next
      case (Cons y ys)
      from Cons.prems have "event_time y < x" by simp
      from intake_within_ttl [OF Cons.prems(1) this] have "entries (intake y g) k = Some x"
        by simp
      moreover from Cons.prems have "\<forall>e \<in> set ys. event_time e < x" by simp
      ultimately show ?case using Cons.IH by simp
    qed
    have "\<forall>e \<in> set (take i evs). event_time e < t0 + ttl f"
      using assms(3) by (meson in_set_takeD)
    from stays [OF e1 this]
    have en: "entries (intakes (Deliver t0 msg # take i evs) f) k = Some (t0 + ttl f)" by simp
    from i ev assms(3) have "event_time (Deliver now m) < t0 + ttl f"
      by (metis nth_mem)
    then have "now < t0 + ttl f" by simp
    with en show ?thesis by (simp add: shouldProcess_def)
  qed
  from first once later show ?thesis by blast
qed

theorem idempotent_within_ttl_witness:
  "entries \<lparr>ttl = 3600000, idempotencyKey = fst, entries = Map.empty,
            handled = [], skipped = []\<rparr> ''t1'' = None \<and>
   list_all (\<lambda>e. event_time e < 0 + 3600000)
     [Deliver 1000 (''t1'', 10::nat), Deliver 2000 (''t2'', 5::nat),
      Sweep 5000, Deliver 3599999 (''t1'', 10::nat)] \<and>
   handled (intakes [Deliver 0 (''t1'', 10::nat),
                     Deliver 1000 (''t1'', 10::nat), Deliver 2000 (''t2'', 5::nat),
                     Sweep 5000, Deliver 3599999 (''t1'', 10::nat)]
              \<lparr>ttl = 3600000, idempotencyKey = fst, entries = Map.empty,
               handled = [], skipped = []\<rparr>)
     = [(''t1'', 10::nat), (''t2'', 5::nat)] \<and>
   filter (\<lambda>m. fst m = ''t1'')
     (handled (intakes [Deliver 0 (''t1'', 10::nat),
                     Deliver 1000 (''t1'', 10::nat), Deliver 2000 (''t2'', 5::nat),
                     Sweep 5000, Deliver 3599999 (''t1'', 10::nat)]
              \<lparr>ttl = 3600000, idempotencyKey = fst, entries = Map.empty,
               handled = [], skipped = []\<rparr>))
     = [(''t1'', 10::nat)]"
proof -
  let ?f = "\<lparr>ttl = 3600000, idempotencyKey = fst, entries = Map.empty,
            handled = [], skipped = []\<rparr> :: (string, string \<times> nat) IdempotencyFilter"
  let ?evs = "[Deliver 1000 (''t1'', 10::nat), Deliver 2000 (''t2'', 5::nat),
                Sweep 5000, Deliver 3599999 (''t1'', 10::nat)]"
  have a: "entries ?f ''t1'' = None \<or> (\<exists>x. entries ?f ''t1'' = Some x \<and> x \<le> 0)" by simp
  have b: "idempotencyKey ?f (''t1'', 10::nat) = ''t1''" by simp
  have c: "\<forall>e \<in> set ?evs. event_time e < 0 + ttl ?f" by simp
  have h: "handled (intakes (Deliver 0 (''t1'', 10::nat) # ?evs) ?f)
     = [(''t1'', 10::nat), (''t2'', 5::nat)]"
    by (simp add: shouldProcess_def sweep_def)
  from idempotent_within_ttl [OF a b c] h c show ?thesis by simp
qed

section \<open>Properties of the batch handler\<close>



lemma push_group_orders:
  "groupOrders (push_group k v g) k' =
     (if k' = k then groupOrders g k @ [v] else groupOrders g k')"
  by (induction k v g rule: push_group.induct) (auto simp: groupOrders_def)

















lemma processCustomerOrders_keys:
  "e \<in> set (snd (processCustomerOrders k orders)) \<Longrightarrow> event_key e = k"
  by (cases orders) auto








section \<open>Properties of the Key-Grouped Batch Aggregator\<close>

lemma push_group_count:
  "length (concat (map snd (push_group k v g))) = Suc (length (concat (map snd g)))"
  by (induction k v g rule: push_group.induct) auto

lemma aggregate_fixed:
  "batchSize (aggregate a e) = batchSize a \<and> batchTimeout (aggregate a e) = batchTimeout a \<and>
   groupingKey (aggregate a e) = groupingKey a"
  by (cases e) (auto simp: offer_def timerFired_def closeBatch_def Let_def)

lemma empty_counted: "batch_counted (emptyBatch now) \<and> messageCount (emptyBatch now) = 0"
  by (simp add: batch_counted_def emptyBatch_def)

lemma aggregate_ok:
  assumes "aggregator_ok a"
  shows "aggregator_ok (aggregate a e)"
proof (cases e)
  case (Offer now msg)
  let ?b = "(openBatch a)\<lparr>groups := push_group (groupingKey a msg) msg (groups (openBatch a)),
                 messageCount := messageCount (openBatch a) + 1\<rparr>"
  from assms have c: "batch_counted ?b"
    by (simp add: aggregator_ok_def batch_counted_def push_group_count)
  show ?thesis
  proof (cases "messageCount (openBatch a) + 1 = batchSize a")
    case True
    with Offer have "openBatch (aggregate a e) = emptyBatch now"
      and "batchSize (aggregate a e) = batchSize a"
      by (simp_all add: offer_def Let_def closeBatch_def)
    moreover from True have "0 < batchSize a" by arith
    ultimately show ?thesis by (simp add: aggregator_ok_def empty_counted)
  next
    case False
    with Offer have "openBatch (aggregate a e) = ?b" and "batchSize (aggregate a e) = batchSize a"
      by (simp_all add: offer_def Let_def)
    with False c assms show ?thesis by (simp add: aggregator_ok_def)
  qed
next
  case (TimerFired now)
  with assms show ?thesis
    by (auto simp: timerFired_def closeBatch_def aggregator_ok_def empty_counted)
qed

lemma aggregates_ok:
  "aggregator_ok a \<Longrightarrow> aggregator_ok (foldl aggregate a evs)"
  by (induction evs arbitrary: a) (simp_all add: aggregate_ok)

lemma aggregates_fixed:
  "batchSize (foldl aggregate a evs) = batchSize a \<and>
   batchTimeout (foldl aggregate a evs) = batchTimeout a \<and>
   groupingKey (foldl aggregate a evs) = groupingKey a"
  by (induction evs arbitrary: a) (simp_all add: aggregate_fixed)

lemma batchOrders_push:
  "batchOrders (b\<lparr>groups := push_group k' v (groups b), messageCount := n\<rparr>) k =
     (if k = k' then batchOrders b k @ [v] else batchOrders b k)"
  using push_group_orders [of k' v "groups b" k]
  by (simp add: batchOrders_def groupOrders_def)

lemma batchOrders_none:
  assumes "batch_counted b" and "messageCount b = 0"
  shows "batchOrders b k = []"
proof (cases "map_of (groups b) k")
  case None
  then show ?thesis by (simp add: batchOrders_def)
next
  case (Some ms)
  then have "(k, ms) \<in> set (groups b)" by (rule map_of_SomeD)
  moreover from assms have "\<forall>p \<in> set (groups b). snd p = []"
    by (simp add: batch_counted_def)
  ultimately have "ms = []" by auto
  with Some show ?thesis by (simp add: batchOrders_def)
qed

lemma held_aggregate:
  assumes "aggregator_ok a"
  shows "held (aggregate a e) k =
           held a k @ filter (\<lambda>m. groupingKey a m = k) (offered [e])"
proof (cases e)
  case (Offer now msg)
  have e: "batchOrders (emptyBatch now) k = []" by (simp add: batchOrders_def emptyBatch_def)
  from Offer show ?thesis
    by (simp add: offer_def Let_def closeBatch_def held_def batchOrders_push e)
next
  case (TimerFired now)
  have e: "batchOrders (emptyBatch now) k = []" by (simp add: batchOrders_def emptyBatch_def)
  show ?thesis
  proof (cases "0 < messageCount (openBatch a)")
    case True
    with TimerFired show ?thesis by (simp add: timerFired_def closeBatch_def held_def e)
  next
    case False
    with assms have "batchOrders (openBatch a) k = []"
      by (simp add: batchOrders_none aggregator_ok_def)
    with False TimerFired show ?thesis by (simp add: timerFired_def held_def e)
  qed
qed

lemma offered_append: "offered (xs @ ys) = offered xs @ offered ys"
  by (induction xs rule: offered.induct) simp_all

lemma held_aggregates:
  assumes "aggregator_ok a"
  shows "held (foldl aggregate a evs) k =
           held a k @ filter (\<lambda>m. groupingKey a m = k) (offered evs)"
proof (induction evs rule: rev_induct)
  case Nil
  show ?case by simp
next
  case (snoc e evs)
  have ok: "aggregator_ok (foldl aggregate a evs)" using assms by (rule aggregates_ok)
  from held_aggregate [OF ok, of e k] snoc show ?case
    by (simp add: aggregates_fixed offered_append)
qed

text \<open>
  Claim C4. \<open>a\<close> is the aggregator, created with a positive \<open>batchSize\<close>, after any
  events \<open>evs\<close>. Its open batch holds fewer than \<open>batchSize\<close> messages. An offer that
  brings the count to \<open>batchSize\<close> closes the batch, whatever the time: the batch with
  the offered message in it is pushed downstream and the open batch is a new empty one.
  A timer that fires \<open>batchTimeout\<close> or more after the batch opened, while the batch
  holds a message, closes it likewise. No other event pushes a batch downstream. Nothing
  is dropped: for every key, the messages held downstream and in the open batch are the
  messages offered with that key, in the order of their offers, also after one more
  event \<open>e\<close>.
\<close>

theorem batch_closure:
  assumes "0 < n" and "a = foldl aggregate (newAggregator n timeout keyOf start) evs"
  shows "messageCount (openBatch a) < batchSize a \<and>
         (messageCount (openBatch a) + 1 = batchSize a \<longrightarrow>
            downstream (offer now msg a)
              = downstream a
                @ [(openBatch a)\<lparr>groups := push_group (keyOf msg) msg (groups (openBatch a)),
                                 messageCount := batchSize a\<rparr>] \<and>
            openBatch (offer now msg a) = emptyBatch now) \<and>
         (0 < messageCount (openBatch a) \<and> batchTimeout a \<le> now - openedAt (openBatch a) \<longrightarrow>
            downstream (timerFired now a) = downstream a @ [openBatch a] \<and>
            openBatch (timerFired now a) = emptyBatch now) \<and>
         (downstream (aggregate a e) \<noteq> downstream a \<longleftrightarrow>
            (\<exists>t m. e = Offer t m \<and> messageCount (openBatch a) + 1 = batchSize a) \<or>
            (\<exists>t. e = TimerFired t \<and> 0 < messageCount (openBatch a)
                 \<and> batchTimeout a \<le> t - openedAt (openBatch a))) \<and>
         held a k = filter (\<lambda>m. keyOf m = k) (offered evs) \<and>
         held (aggregate a e) k = filter (\<lambda>m. keyOf m = k) (offered (evs @ [e]))"
proof -
  let ?a0 = "newAggregator n timeout keyOf start :: ('a, 'b) Aggregator"
  have ok0: "aggregator_ok ?a0"
    using assms(1) by (simp add: aggregator_ok_def newAggregator_def empty_counted)
  have ok: "aggregator_ok a" unfolding assms(2) using ok0 by (rule aggregates_ok)
  have fixed: "batchSize a = n" "batchTimeout a = timeout" "groupingKey a = keyOf"
    unfolding assms(2) by (simp_all add: aggregates_fixed newAggregator_def)
  have h0: "held ?a0 k = []"
    by (simp add: held_def newAggregator_def batchOrders_def emptyBatch_def)
  have 1: "messageCount (openBatch a) < batchSize a"
    using ok by (simp add: aggregator_ok_def)
  have 2: "messageCount (openBatch a) + 1 = batchSize a \<longrightarrow>
            downstream (offer now msg a)
              = downstream a
                @ [(openBatch a)\<lparr>groups := push_group (keyOf msg) msg (groups (openBatch a)),
                                 messageCount := batchSize a\<rparr>] \<and>
            openBatch (offer now msg a) = emptyBatch now"
    using fixed by (auto simp: offer_def Let_def closeBatch_def)
  have 3: "0 < messageCount (openBatch a) \<and> batchTimeout a \<le> now - openedAt (openBatch a) \<longrightarrow>
            downstream (timerFired now a) = downstream a @ [openBatch a] \<and>
            openBatch (timerFired now a) = emptyBatch now"
    by (simp add: timerFired_def closeBatch_def)
  have 4: "downstream (aggregate a e) \<noteq> downstream a \<longleftrightarrow>
            (\<exists>t m. e = Offer t m \<and> messageCount (openBatch a) + 1 = batchSize a) \<or>
            (\<exists>t. e = TimerFired t \<and> 0 < messageCount (openBatch a)
                 \<and> batchTimeout a \<le> t - openedAt (openBatch a))"
    by (cases e) (auto simp: offer_def timerFired_def closeBatch_def Let_def)
  have 5: "held a k = filter (\<lambda>m. keyOf m = k) (offered evs)"
    unfolding assms(2) using held_aggregates [OF ok0, of evs k] h0
    by (simp add: newAggregator_def)
  have 6: "held (aggregate a e) k = filter (\<lambda>m. keyOf m = k) (offered (evs @ [e]))"
    using held_aggregate [OF ok, of e k] 5 fixed by (simp add: offered_append)
  from 1 2 3 4 5 6 show ?thesis by blast
qed

theorem batch_closure_witness:
  "(0::nat) < 3 \<and>
   messageCount (openBatch (foldl aggregate (newAggregator 3 1000 fst 0)
       [Offer 10 (''A'', 1::nat), Offer 20 (''B'', 2)])) + 1 = 3 \<and>
   downstream (offer 40 (''A'', 3)
       (foldl aggregate (newAggregator 3 1000 fst 0) [Offer 10 (''A'', 1::nat), Offer 20 (''B'', 2)]))
     = [\<lparr>groups = [(''A'', [(''A'', 1), (''A'', 3)]), (''B'', [(''B'', 2)])],
         openedAt = 0, messageCount = 3\<rparr>] \<and>
   openBatch (offer 40 (''A'', 3)
       (foldl aggregate (newAggregator 3 1000 fst 0) [Offer 10 (''A'', 1::nat), Offer 20 (''B'', 2)]))
     = emptyBatch 40 \<and>
   downstream (timerFired 1000
       (foldl aggregate (newAggregator 3 1000 fst 0) [Offer 10 (''A'', 1::nat), Offer 20 (''B'', 2)]))
     = [\<lparr>groups = [(''A'', [(''A'', 1)]), (''B'', [(''B'', 2)])],
         openedAt = 0, messageCount = 2\<rparr>] \<and>
   held (aggregate (foldl aggregate (newAggregator 3 1000 fst 0)
                      [Offer 10 (''A'', 1::nat), Offer 20 (''B'', 2)])
           (Offer 40 (''A'', 3))) ''A''
     = [(''A'', 1), (''A'', 3)]"
proof -
  let ?a = "foldl aggregate (newAggregator 3 1000 fst 0)
       [Offer 10 (''A'', 1::nat), Offer 20 (''B'', 2)]"
  have a: "?a = \<lparr>batchSize = 3, batchTimeout = 1000, groupingKey = fst,
      openBatch = \<lparr>groups = [(''A'', [(''A'', 1)]), (''B'', [(''B'', 2)])],
         openedAt = 0, messageCount = 2\<rparr>, downstream = []\<rparr>"
    by (simp add: newAggregator_def offer_def emptyBatch_def Let_def closeBatch_def)
  have n: "(0::nat) < 3" by simp
  note w1 = batch_closure [OF n refl, where timeout = 1000 and keyOf = fst and start = 0
      and evs = "[Offer 10 (''A'', 1::nat), Offer 20 (''B'', 2)]"
      and now = 40 and msg = "(''A'', 3)" and e = "Offer 40 (''A'', 3)" and k = "''A''"]
  note w2 = batch_closure [OF n refl, where timeout = 1000 and keyOf = fst and start = 0
      and evs = "[Offer 10 (''A'', 1::nat), Offer 20 (''B'', 2)]"
      and now = 1000 and e = "TimerFired 1000" and k = "''A''"]
  from w1 w2 show ?thesis unfolding a by (simp add: emptyBatch_def)
qed

end
